theory Spec2Isabelle
  imports Complex_Main "HOL-Library.Word"
begin

unbundle bit_operations_syntax

section \<open>Common data\<close>

text \<open>
  Python \<open>bytes\<close> and \<open>bytearray\<close> values are lists of 8-bit words, Python \<open>int\<close> is
  \<open>int\<close>, a Python \<open>str\<close> is the list of its code points, and the wall-clock readings
  of \<open>time.time()\<close> are an explicit argument \<open>now\<close> of the operation that takes them.
  Printing, sleeping and the reentrant locks have no effect on the data and are left out;
  the optional visualisation callbacks of the buffer manager are taken to be unset
  (\<open>None\<close>), as its constructor leaves them.
\<close>

type_synonym byte = "8 word"
type_synonym bytes = "byte list"
type_synonym pystr = "nat list"

abbreviation (input) BLOCK_SIZE :: nat where "BLOCK_SIZE \<equiv> 64"
abbreviation (input) TOTAL_BLOCKS :: nat where "TOTAL_BLOCKS \<equiv> 1024"
abbreviation (input) SUPERBLOCK_START :: int where "SUPERBLOCK_START \<equiv> 0"
abbreviation (input) BITMAP_START :: int where "BITMAP_START \<equiv> 1"
abbreviation (input) INODE_START :: int where "INODE_START \<equiv> 3"
abbreviation (input) DATA_START :: nat where "DATA_START \<equiv> 35"
abbreviation (input) MAX_INODES :: nat where "MAX_INODES \<equiv> 32"
abbreviation (input) MAX_FILENAME :: nat where "MAX_FILENAME \<equiv> 20"
abbreviation (input) DIRECT_BLOCKS :: nat where "DIRECT_BLOCKS \<equiv> 10"
abbreviation (input) BUFFER_SIZE :: nat where "BUFFER_SIZE \<equiv> 16"

text \<open>The exceptions the modelled code can raise; an operation returns \<open>Inl\<close> of one
  of them together with the state as the exception left it.\<close>

datatype exn = StructError | OSError | ValueError | UnicodeEncodeError | KeyError | IndexError

definition ljust :: "nat \<Rightarrow> byte \<Rightarrow> bytes \<Rightarrow> bytes" where
  "ljust n c xs = xs @ replicate (n - length xs) c"


section \<open>VirtualDisk\<close>

text \<open>
  The virtual disk is its backing file: the bytes it holds and \<open>offset_limit\<close>, the
  largest file offset and file size the host admits for it (a whole number of blocks on a
  real host). \<open>seek\<close> raises \<open>ValueError\<close> when the offset does not fit a signed
  64-bit integer and \<open>OSError\<close> when it is negative or beyond the limit. Reading at or
  past the end of the file returns the bytes that are there (none past the end); writing
  past the end first fills the gap with zero bytes, and a write that would pass the limit
  fails with \<open>OSError\<close> and writes nothing. \<open>create_disk\<close> truncates the file and
  writes the zero bytes, as many as the host admits. The file itself is taken to exist
  and to be readable and writable.
\<close>

record VirtualDisk =
  file_bytes :: bytes
  offset_limit :: int

type_synonym disk = VirtualDisk

definition seek :: "disk \<Rightarrow> int \<Rightarrow> exn + nat" where
  "seek d offset =
     (if offset < - 9223372036854775808 \<or> 9223372036854775807 < offset then Inl ValueError
      else if offset < 0 \<or> offset_limit d < offset then Inl OSError
      else Inr (nat offset))"

definition create_disk :: "int \<Rightarrow> (exn + unit) \<times> disk" where
  "create_disk limit =
     (if limit < int (BLOCK_SIZE * TOTAL_BLOCKS)
      then (Inl OSError, \<lparr>file_bytes = replicate (nat limit) 0, offset_limit = limit\<rparr>)
      else (Inr (), \<lparr>file_bytes = replicate (BLOCK_SIZE * TOTAL_BLOCKS) 0,
                       offset_limit = limit\<rparr>))"

definition VirtualDisk_read_block :: "disk \<Rightarrow> int \<Rightarrow> exn + bytes" where
  "VirtualDisk_read_block d block_num =
     (case seek d (block_num * int BLOCK_SIZE) of
        Inl e \<Rightarrow> Inl e
      | Inr pos \<Rightarrow> Inr (take BLOCK_SIZE (drop pos (file_bytes d))))"

definition VirtualDisk_write_block :: "disk \<Rightarrow> int \<Rightarrow> bytes \<Rightarrow> exn + disk" where
  "VirtualDisk_write_block d block_num dat =
     (let dat' = ljust BLOCK_SIZE 0 (take BLOCK_SIZE dat) in
      case seek d (block_num * int BLOCK_SIZE) of
        Inl e \<Rightarrow> Inl e
      | Inr pos \<Rightarrow>
          if offset_limit d < int (pos + BLOCK_SIZE) then Inl OSError
          else let old = file_bytes d @ replicate (pos - length (file_bytes d)) 0
               in Inr (d\<lparr>file_bytes := take pos old @ dat' @ drop (pos + BLOCK_SIZE) old\<rparr>))"

text \<open>The block numbers at which a block can be read and written: the block lies
  inside the host's limit. \<open>fresh_disk\<close> is the disk \<open>create_disk\<close> makes on a host
  with a limit of 16 TiB less one page.\<close>

definition addressable :: "disk \<Rightarrow> int \<Rightarrow> bool" where
  "addressable d n \<longleftrightarrow>
     0 \<le> n \<and> n * int BLOCK_SIZE + int BLOCK_SIZE \<le> offset_limit d
     \<and> n * int BLOCK_SIZE \<le> 9223372036854775807"

definition fresh_disk :: disk where
  "fresh_disk = \<lparr>file_bytes = replicate (BLOCK_SIZE * TOTAL_BLOCKS) 0,
                  offset_limit = 17592186040320\<rparr>"

section \<open>BufferManager\<close>

record BufferPage =
  page_id :: nat
  block_num :: int
  page_filename :: pystr
  data :: bytes
  is_dirty :: bool
  is_valid :: bool
  owner_pid :: int
  access_time :: real
  load_time :: real
  access_count :: int

definition new_page :: "nat \<Rightarrow> BufferPage" where
  "new_page i = \<lparr>page_id = i, block_num = -1, page_filename = [],
     data = replicate BLOCK_SIZE 0, is_dirty = False, is_valid = False, owner_pid = -1,
     access_time = 0, load_time = 0, access_count = 0\<rparr>"

text \<open>
  \<open>pages\<close> is the dictionary keyed by \<open>0 .. buffer_size - 1\<close> in insertion order, that is
  the list of its values; \<open>lru_order\<close> is the key sequence of the ordered dictionary
  (its values are all \<open>True\<close>), oldest first; \<open>fs_disk\<close> is \<open>self.fs.disk\<close>.
\<close>

record BufferManager =
  fs_disk :: disk
  buffer_size :: nat
  pages :: "BufferPage list"
  lru_order :: "nat list"
  hit_count :: nat
  miss_count :: nat
  writeback_count :: nat

definition BufferManager_init :: "disk \<Rightarrow> nat \<Rightarrow> BufferManager" where
  "BufferManager_init d n = \<lparr>fs_disk = d, buffer_size = n, pages = map new_page [0..<n],
     lru_order = [], hit_count = 0, miss_count = 0, writeback_count = 0\<rparr>"

definition find_free_page :: "BufferManager \<Rightarrow> nat option" where
  "find_free_page s = find (\<lambda>i. \<not> is_valid (pages s ! i)) [0..<length (pages s)]"

definition find_lru_page :: "BufferManager \<Rightarrow> nat option" where
  "find_lru_page s = (case lru_order s of [] \<Rightarrow> None | oldest_key # _ \<Rightarrow> Some oldest_key)"

definition update_lru :: "BufferManager \<Rightarrow> nat \<Rightarrow> BufferManager" where
  "update_lru s i =
     (if i \<in> set (lru_order s) then s\<lparr>lru_order := removeAll i (lru_order s) @ [i]\<rparr>
      else s\<lparr>lru_order := lru_order s @ [i]\<rparr>)"

definition remove_from_lru :: "BufferManager \<Rightarrow> nat \<Rightarrow> BufferManager" where
  "remove_from_lru s i =
     (if i \<in> set (lru_order s) then s\<lparr>lru_order := removeAll i (lru_order s)\<rparr> else s)"

definition evict_page :: "BufferManager \<Rightarrow> nat \<Rightarrow> (exn + bool) \<times> BufferManager" where
  "evict_page s i =
     (if length (pages s) \<le> i then (Inl KeyError, s)
      else let page = pages s ! i in
        if \<not> is_valid page then (Inr True, s)
        else
          (case (if is_dirty page
                 then (case VirtualDisk_write_block (fs_disk s) (block_num page) (data page) of
                         Inl e \<Rightarrow> Inl e
                       | Inr d' \<Rightarrow> Inr (s\<lparr>fs_disk := d',
                                             writeback_count := writeback_count s + 1\<rparr>))
                 else Inr s) of
             Inl e \<Rightarrow> (Inl e, s)
           | Inr s1 \<Rightarrow>
               (Inr True,
                remove_from_lru
                  (s1\<lparr>pages := (pages s1)[i := page\<lparr>is_valid := False, is_dirty := False,
                       block_num := -1, page_filename := [], owner_pid := -1,
                       data := replicate BLOCK_SIZE 0\<rparr>]\<rparr>) i)))"

definition load_block ::
  "BufferManager \<Rightarrow> real \<Rightarrow> pystr \<Rightarrow> int \<Rightarrow> int \<Rightarrow> (exn + (nat option \<times> bytes)) \<times> BufferManager" where
  "load_block s now fname bnum pid =
     (case find (\<lambda>i. is_valid (pages s ! i) \<and> block_num (pages s ! i) = bnum
                      \<and> page_filename (pages s ! i) = fname) [0..<length (pages s)] of
        Some i \<Rightarrow>
          (let page = (pages s ! i)\<lparr>access_time := now,
                                    access_count := access_count (pages s ! i) + 1\<rparr>
           in (Inr (Some i, data page),
               update_lru (s\<lparr>hit_count := hit_count s + 1, pages := (pages s)[i := page]\<rparr>) i))
      | None \<Rightarrow>
          (let s1 = s\<lparr>miss_count := miss_count s + 1\<rparr> in
           case (case find_free_page s1 of
                   Some i \<Rightarrow> (Inr (Some i), s1)
                 | None \<Rightarrow>
                     (case find_lru_page s1 of
                        None \<Rightarrow> (Inr None, s1)
                      | Some i \<Rightarrow>
                          (case evict_page s1 i of
                             (Inl e, s2) \<Rightarrow> (Inl e, s2)
                           | (Inr _, s2) \<Rightarrow> (Inr (Some i), s2)))) of
             (Inl e, s2) \<Rightarrow> (Inl e, s2)
           | (Inr None, s2) \<Rightarrow> (Inr (None, []), s2)
           | (Inr (Some i), s2) \<Rightarrow>
               (case VirtualDisk_read_block (fs_disk s2) bnum of
                  Inl e \<Rightarrow> (Inl e, s2)
                | Inr dat \<Rightarrow>
                    (if length (pages s2) \<le> i then (Inl KeyError, s2)
                     else
                       (Inr (Some i, dat),
                        update_lru
                          (s2\<lparr>pages := (pages s2)[i := (pages s2 ! i)\<lparr>block_num := bnum,
                               page_filename := fname, data := dat, is_valid := True,
                               is_dirty := False, owner_pid := pid, access_time := now,
                               load_time := now, access_count := 1\<rparr>]\<rparr>) i)))))"

definition BufferManager_write_block ::
  "BufferManager \<Rightarrow> real \<Rightarrow> pystr \<Rightarrow> int \<Rightarrow> bytes \<Rightarrow> int \<Rightarrow> (exn + bool) \<times> BufferManager" where
  "BufferManager_write_block s now fname bnum dat pid =
     (case load_block s now fname bnum pid of
        (Inl e, s1) \<Rightarrow> (Inl e, s1)
      | (Inr (None, _), s1) \<Rightarrow> (Inr False, s1)
      | (Inr (Some i, _), s1) \<Rightarrow>
          (Inr True,
           s1\<lparr>pages := (pages s1)[i := (pages s1 ! i)\<lparr>
                 data := ljust BLOCK_SIZE 0 (take BLOCK_SIZE dat),
                 is_dirty := True, access_time := now\<rparr>]\<rparr>))"

fun flush_all_loop :: "nat list \<Rightarrow> BufferManager \<Rightarrow> (exn + unit) \<times> BufferManager" where
  "flush_all_loop [] s = (Inr (), s)"
| "flush_all_loop (i # ids) s =
     (let page = pages s ! i in
      if is_valid page \<and> is_dirty page then
        (case VirtualDisk_write_block (fs_disk s) (block_num page) (data page) of
           Inl e \<Rightarrow> (Inl e, s)
         | Inr d' \<Rightarrow>
             flush_all_loop ids
               (s\<lparr>fs_disk := d', pages := (pages s)[i := page\<lparr>is_dirty := False\<rparr>],
                  writeback_count := writeback_count s + 1\<rparr>))
      else flush_all_loop ids s)"

definition flush_all :: "BufferManager \<Rightarrow> (exn + unit) \<times> BufferManager" where
  "flush_all s = flush_all_loop [0..<length (pages s)] s"

fun flush_file_loop :: "pystr \<Rightarrow> nat list \<Rightarrow> BufferManager \<Rightarrow> (exn + unit) \<times> BufferManager" where
  "flush_file_loop fname [] s = (Inr (), s)"
| "flush_file_loop fname (i # ids) s =
     (let page = pages s ! i in
      if is_valid page \<and> is_dirty page \<and> page_filename page = fname then
        (case VirtualDisk_write_block (fs_disk s) (block_num page) (data page) of
           Inl e \<Rightarrow> (Inl e, s)
         | Inr d' \<Rightarrow>
             flush_file_loop fname ids
               (s\<lparr>fs_disk := d', pages := (pages s)[i := page\<lparr>is_dirty := False\<rparr>],
                  writeback_count := writeback_count s + 1\<rparr>))
      else flush_file_loop fname ids s)"

definition flush_file :: "BufferManager \<Rightarrow> pystr \<Rightarrow> (exn + unit) \<times> BufferManager" where
  "flush_file s fname = flush_file_loop fname [0..<length (pages s)] s"

fun invalidate_file_loop :: "pystr \<Rightarrow> nat list \<Rightarrow> BufferManager \<Rightarrow> (exn + unit) \<times> BufferManager" where
  "invalidate_file_loop fname [] s = (Inr (), s)"
| "invalidate_file_loop fname (i # ids) s =
     (let page = pages s ! i in
      if is_valid page \<and> page_filename page = fname then
        (case (if is_dirty page
               then (case VirtualDisk_write_block (fs_disk s) (block_num page) (data page) of
                       Inl e \<Rightarrow> Inl e
                     | Inr d' \<Rightarrow> Inr (s\<lparr>fs_disk := d',
                                           writeback_count := writeback_count s + 1\<rparr>))
               else Inr s) of
           Inl e \<Rightarrow> (Inl e, s)
         | Inr s1 \<Rightarrow>
             invalidate_file_loop fname ids
               (remove_from_lru
                  (s1\<lparr>pages := (pages s1)[i := page\<lparr>is_valid := False, is_dirty := False\<rparr>]\<rparr>) i))
      else invalidate_file_loop fname ids s)"

definition invalidate_file :: "BufferManager \<Rightarrow> pystr \<Rightarrow> (exn + unit) \<times> BufferManager" where
  "invalidate_file s fname = invalidate_file_loop fname [0..<length (pages s)] s"

subsection \<open>Sequences of buffer operations and the states they reach\<close>

datatype buf_op =
    Load real pystr int int
  | Write real pystr int bytes int
  | FlushAll
  | FlushFile pystr
  | InvalidateFile pystr

fun run_op :: "BufferManager \<Rightarrow> buf_op \<Rightarrow> BufferManager" where
  "run_op s (Load now fname bnum pid) = snd (load_block s now fname bnum pid)"
| "run_op s (Write now fname bnum dat pid) = snd (BufferManager_write_block s now fname bnum dat pid)"
| "run_op s FlushAll = snd (flush_all s)"
| "run_op s (FlushFile fname) = snd (flush_file s fname)"
| "run_op s (InvalidateFile fname) = snd (invalidate_file s fname)"

definition run_ops :: "BufferManager \<Rightarrow> buf_op list \<Rightarrow> BufferManager" where
  "run_ops s ops = foldl run_op s ops"

inductive reachable :: "BufferManager \<Rightarrow> bool" where
  init: "reachable (BufferManager_init d n)"
| step: "reachable s \<Longrightarrow> reachable (run_op s op)"

subsection \<open>Sequential accesses to distinct blocks\<close>

text \<open>
  An access is a clock reading, a process id, a file name, a block number and, for a
  \<open>write_block\<close>, the bytes written (\<open>None\<close> for a \<open>load_block\<close>). \<open>filled\<close> is the pool
  after the first accesses to pairwise distinct blocks, one page per access in page order.
  \<open>scenario_B\<close> loads the blocks 35 to 50 of one file, each at its own clock reading;
  \<open>scenario_B_dirty\<close> writes block 35 first and then loads the blocks 36 to 50.
\<close>

type_synonym access = "real \<times> int \<times> pystr \<times> int \<times> bytes option"

fun access_op :: "access \<Rightarrow> buf_op" where
  "access_op (now, pid, fname, bnum, None) = Load now fname bnum pid"
| "access_op (now, pid, fname, bnum, Some dat) = Write now fname bnum dat pid"

fun access_key :: "access \<Rightarrow> pystr \<times> int" where
  "access_key (now, pid, fname, bnum, w) = (fname, bnum)"

fun access_data :: "access \<Rightarrow> bytes option" where
  "access_data (now, pid, fname, bnum, w) = w"

fun cached_page :: "disk \<Rightarrow> nat \<Rightarrow> access \<Rightarrow> BufferPage" where
  "cached_page d i (now, pid, fname, bnum, w) =
     \<lparr>page_id = i, block_num = bnum, page_filename = fname,
      data = (case w of None \<Rightarrow> take BLOCK_SIZE (drop (nat bnum * BLOCK_SIZE) (file_bytes d))
                      | Some dat \<Rightarrow> ljust BLOCK_SIZE 0 (take BLOCK_SIZE dat)),
      is_dirty = (w \<noteq> None), is_valid = True, owner_pid = pid,
      access_time = now, load_time = now, access_count = 1\<rparr>"

definition filled :: "disk \<Rightarrow> nat \<Rightarrow> access list \<Rightarrow> BufferManager" where
  "filled d n reqs =
     \<lparr>fs_disk = d, buffer_size = n,
      pages = map2 (cached_page d) [0..<length reqs] reqs @ map new_page [length reqs..<n],
      lru_order = [0..<length reqs], hit_count = 0, miss_count = length reqs,
      writeback_count = 0\<rparr>"

definition scenario_B :: "access list" where
  "scenario_B = map (\<lambda>b. (real b, 1, [97, 46, 116, 120, 116], int b, None)) [35..<51]"

definition scenario_B_dirty :: "access list" where
  "scenario_B_dirty =
     (0, 2, [97, 46, 116, 120, 116], 35, Some [1, 2, 3])
       # map (\<lambda>b. (real b, 1, [97, 46, 116, 120, 116], int b, None)) [36..<51]"

text \<open>At most one valid page per (filename, block number) pair.\<close>

definition unique_mapping :: "BufferManager \<Rightarrow> bool" where
  "unique_mapping s \<longleftrightarrow>
     (\<forall>i < length (pages s). \<forall>j < length (pages s).
        is_valid (pages s ! i) \<and> is_valid (pages s ! j)
        \<and> page_filename (pages s ! i) = page_filename (pages s ! j)
        \<and> block_num (pages s ! i) = block_num (pages s ! j) \<longrightarrow> i = j)"

text \<open>A valid page caches a block of the disk (its block number is not the sentinel),
  and only a valid page is dirty.\<close>

definition pages_ok :: "BufferManager \<Rightarrow> bool" where
  "pages_ok s \<longleftrightarrow>
     (\<forall>p \<in> set (pages s). (is_valid p \<longrightarrow> 0 \<le> block_num p) \<and> (is_dirty p \<longrightarrow> is_valid p))"

text \<open>The recency structure holds exactly the valid pages, each once.\<close>

definition lru_ok :: "BufferManager \<Rightarrow> bool" where
  "lru_ok s \<longleftrightarrow>
     distinct (lru_order s) \<and>
     set (lru_order s) = {i. i < length (pages s) \<and> is_valid (pages s ! i)}"

definition buffer_inv :: "BufferManager \<Rightarrow> bool" where
  "buffer_inv s \<longleftrightarrow> unique_mapping s \<and> pages_ok s \<and> lru_ok s"


text \<open>A pool of \<open>BUFFER_SIZE\<close> pages over \<open>fresh_disk\<close> after one \<open>write_block\<close>: its
  page 0 is dirty.\<close>

definition one_dirty :: BufferManager where
  "one_dirty =
     snd (BufferManager_write_block (BufferManager_init fresh_disk BUFFER_SIZE)
            0 [102] 35 [1, 2, 3] 7)"

section \<open>Binary records\<close>

text \<open>
  \<open>struct.pack\<close> raises \<open>struct.error\<close> when a value does not fit its format; all
  formats used are little-endian. \<open>le_bytes k x\<close> are the \<open>k\<close> low bytes of \<open>x\<close> in
  two's complement, \<open>le_uint\<close> reads bytes as an unsigned number, \<open>le_sint\<close> as a
  signed one.
\<close>

definition bindE :: "exn + 'a \<Rightarrow> ('a \<Rightarrow> exn + 'b) \<Rightarrow> exn + 'b" where
  "bindE m f = (case m of Inl e \<Rightarrow> Inl e | Inr a \<Rightarrow> f a)"

fun mapE :: "('a \<Rightarrow> exn + 'b) \<Rightarrow> 'a list \<Rightarrow> exn + 'b list" where
  "mapE f [] = Inr []"
| "mapE f (x # xs) = bindE (f x) (\<lambda>y. bindE (mapE f xs) (\<lambda>ys. Inr (y # ys)))"

fun le_bytes :: "nat \<Rightarrow> int \<Rightarrow> bytes" where
  "le_bytes 0 x = []"
| "le_bytes (Suc k) x = word_of_int x # le_bytes k (x div 256)"

fun le_uint :: "bytes \<Rightarrow> int" where
  "le_uint [] = 0"
| "le_uint (b # bs) = uint b + 256 * le_uint bs"

definition le_sint :: "bytes \<Rightarrow> int" where
  "le_sint bs = (if 2 ^ (8 * length bs - 1) \<le> le_uint bs
                 then le_uint bs - 2 ^ (8 * length bs) else le_uint bs)"

definition pack_B :: "int \<Rightarrow> exn + bytes" where
  "pack_B x = (if 0 \<le> x \<and> x \<le> 255 then Inr (le_bytes 1 x) else Inl StructError)"

definition pack_I :: "int \<Rightarrow> exn + bytes" where
  "pack_I x = (if 0 \<le> x \<and> x \<le> 4294967295 then Inr (le_bytes 4 x) else Inl StructError)"

definition pack_h :: "int \<Rightarrow> exn + bytes" where
  "pack_h x = (if -32768 \<le> x \<and> x \<le> 32767 then Inr (le_bytes 2 x) else Inl StructError)"

definition pack_i :: "int \<Rightarrow> exn + bytes" where
  "pack_i x = (if -2147483648 \<le> x \<and> x \<le> 2147483647 then Inr (le_bytes 4 x)
               else Inl StructError)"

subsection \<open>UTF-8\<close>

text \<open>
  \<open>str.encode('utf-8')\<close> raises \<open>UnicodeEncodeError\<close> on a surrogate code point (a list
  entry above \<open>0x10FFFF\<close> is no code point of a Python string and is refused the same
  way). \<open>bytes.decode('utf-8', errors='ignore')\<close> follows the decoder of CPython: an
  invalid start byte is dropped, after an invalid continuation byte decoding resumes at
  that byte, and a sequence cut off by the end of the data is dropped.
\<close>

definition encode_char :: "nat \<Rightarrow> exn + bytes" where
  "encode_char c =
     (if c < 0x80 then Inr [of_nat c]
      else if c < 0x800 then Inr [of_nat (0xC0 + c div 64), of_nat (0x80 + c mod 64)]
      else if c < 0x10000 then
        (if 0xD800 \<le> c \<and> c \<le> 0xDFFF then Inl UnicodeEncodeError
         else Inr [of_nat (0xE0 + c div 4096), of_nat (0x80 + c div 64 mod 64),
                   of_nat (0x80 + c mod 64)])
      else if c < 0x110000 then
        Inr [of_nat (0xF0 + c div 262144), of_nat (0x80 + c div 4096 mod 64),
             of_nat (0x80 + c div 64 mod 64), of_nat (0x80 + c mod 64)]
      else Inl UnicodeEncodeError)"

definition utf8_encode :: "pystr \<Rightarrow> exn + bytes" where
  "utf8_encode s = bindE (mapE encode_char s) (\<lambda>bs. Inr (concat bs))"

definition is_continuation :: "nat \<Rightarrow> bool" where
  "is_continuation b \<longleftrightarrow> 0x80 \<le> b \<and> b < 0xC0"

fun decode_ignore :: "nat list \<Rightarrow> pystr" where
  "decode_ignore [] = []"
| "decode_ignore (c # bs) =
     (if c < 0x80 then c # decode_ignore bs
      else if c < 0xC2 then decode_ignore bs
      else if c < 0xE0 then
        (case bs of
           [] \<Rightarrow> []
         | c2 # r \<Rightarrow>
             if is_continuation c2 then (c mod 32 * 64 + c2 mod 64) # decode_ignore r
             else decode_ignore bs)
      else if c < 0xF0 then
        (case bs of
           [] \<Rightarrow> []
         | c2 # r \<Rightarrow>
             if \<not> is_continuation c2 \<or> (c = 0xE0 \<and> c2 < 0xA0) \<or> (c = 0xED \<and> 0xA0 \<le> c2)
             then decode_ignore bs
             else
               (case r of
                  [] \<Rightarrow> []
                | c3 # r' \<Rightarrow>
                    if is_continuation c3
                    then (c mod 16 * 4096 + c2 mod 64 * 64 + c3 mod 64) # decode_ignore r'
                    else decode_ignore r))
      else if c < 0xF5 then
        (case bs of
           [] \<Rightarrow> []
         | c2 # r \<Rightarrow>
             if \<not> is_continuation c2 \<or> (c = 0xF0 \<and> c2 < 0x90) \<or> (c = 0xF4 \<and> 0x90 \<le> c2)
             then decode_ignore bs
             else
               (case r of
                  [] \<Rightarrow> []
                | c3 # r' \<Rightarrow>
                    if \<not> is_continuation c3 then decode_ignore r
                    else
                      (case r' of
                         [] \<Rightarrow> []
                       | c4 # r'' \<Rightarrow>
                           if is_continuation c4
                           then (c mod 8 * 262144 + c2 mod 64 * 4096 + c3 mod 64 * 64 + c4 mod 64)
                                # decode_ignore r''
                           else decode_ignore r')))
      else decode_ignore bs)"

definition utf8_decode_ignore :: "bytes \<Rightarrow> pystr" where
  "utf8_decode_ignore bs = decode_ignore (map unat bs)"

definition rstrip_nul :: "bytes \<Rightarrow> bytes" where
  "rstrip_nul bs = rev (dropWhile (\<lambda>b. b = 0) (rev bs))"

section \<open>INode\<close>

record INode =
  inode_id :: int
  filename :: pystr
  file_size :: int
  create_time :: real
  modify_time :: real
  permission :: int
  is_used :: bool
  is_directory :: bool
  ref_count :: int
  direct_blocks :: "int list"
  indirect_block :: int

definition new_inode :: "int \<Rightarrow> INode" where
  "new_inode i = \<lparr>inode_id = i, filename = [], file_size = 0, create_time = 0,
     modify_time = 0, permission = 6, is_used = False, is_directory = False, ref_count = 0,
     direct_blocks = replicate DIRECT_BLOCKS (-1), indirect_block = -1\<rparr>"

definition inode_flags :: "INode \<Rightarrow> int" where
  "inode_flags n =
     (if is_used n then 0x80 else 0) OR (if is_directory n then 0x40 else 0)
       OR push_bit 3 (permission n AND 0x07) OR (ref_count n AND 0x07)"

definition INode_to_bytes :: "INode \<Rightarrow> exn + bytes" where
  "INode_to_bytes n =
     bindE (utf8_encode (filename n)) (\<lambda>enc.
     let name_bytes = ljust MAX_FILENAME 0 (take MAX_FILENAME enc) in
     bindE (pack_B (inode_id n)) (\<lambda>b_id.
     bindE (pack_I (file_size n)) (\<lambda>b_size.
     bindE (pack_B (inode_flags n)) (\<lambda>b_flags.
     bindE (mapE (\<lambda>i. pack_h (if i < length (direct_blocks n) then direct_blocks n ! i else -1))
              [0..<DIRECT_BLOCKS]) (\<lambda>b_direct.
     bindE (pack_h (indirect_block n)) (\<lambda>b_indirect.
     Inr (take 64 (ljust 64 0
            (b_id @ name_bytes @ b_size @ b_flags @ concat b_direct @ b_indirect)))))))))"

text \<open>With 64 bytes of data none of the slices is short and the decoder ignores errors,
  so the \<open>except\<close> branch of \<open>from_bytes\<close> is never taken.\<close>

definition INode_from_bytes :: "bytes \<Rightarrow> int \<Rightarrow> INode" where
  "INode_from_bytes dat slot =
     (if length dat < 64 then new_inode slot
      else
        let id_byte = uint (dat ! 0);
            flags = uint (dat ! 25)
        in \<lparr>inode_id = (if id_byte = slot then id_byte else slot),
            filename = utf8_decode_ignore (rstrip_nul (take 20 (drop 1 dat))),
            file_size = le_uint (take 4 (drop 21 dat)),
            create_time = 0, modify_time = 0,
            permission = drop_bit 3 flags AND 0x07,
            is_used = (flags AND 0x80 \<noteq> 0),
            is_directory = (flags AND 0x40 \<noteq> 0),
            ref_count = flags AND 0x07,
            direct_blocks = map (\<lambda>i. le_sint (take 2 (drop (26 + 2 * i) dat))) [0..<DIRECT_BLOCKS],
            indirect_block = le_sint (take 2 (drop (26 + 2 * DIRECT_BLOCKS) dat))\<rparr>)"

section \<open>Bitmap\<close>

text \<open>
  \<open>bits\<close> is the byte array, one bit per block, low bit first. The constructor gives it
  \<open>(total_blocks + 7) div 8\<close> bytes and no modelled operation changes its length, so
  every index the operations use is inside it; the theorems carry that as \<open>bitmap_ok\<close>.
\<close>

record Bitmap =
  total_blocks :: int
  bits :: bytes

definition set_used :: "Bitmap \<Rightarrow> int \<Rightarrow> Bitmap" where
  "set_used bm block_no =
     (if 0 \<le> block_no \<and> block_no < total_blocks bm
      then bm\<lparr>bits := (bits bm)[nat (block_no div 8) :=
                 bits bm ! nat (block_no div 8) OR push_bit (nat (block_no mod 8)) 1]\<rparr>
      else bm)"

definition set_free :: "Bitmap \<Rightarrow> int \<Rightarrow> Bitmap" where
  "set_free bm block_no =
     (if 0 \<le> block_no \<and> block_no < total_blocks bm
      then bm\<lparr>bits := (bits bm)[nat (block_no div 8) :=
                 bits bm ! nat (block_no div 8) AND NOT (push_bit (nat (block_no mod 8)) 1)]\<rparr>
      else bm)"

definition is_free :: "Bitmap \<Rightarrow> int \<Rightarrow> bool" where
  "is_free bm block_no =
     (if 0 \<le> block_no \<and> block_no < total_blocks bm
      then bits bm ! nat (block_no div 8) AND push_bit (nat (block_no mod 8)) 1 = 0
      else False)"

definition Bitmap_init :: "int \<Rightarrow> exn + Bitmap" where
  "Bitmap_init n =
     (if (n + 7) div 8 < 0 then Inl ValueError
      else Inr (foldl set_used \<lparr>total_blocks = n, bits = replicate (nat ((n + 7) div 8)) 0\<rparr>
                  (map int [0..<DATA_START])))"

definition data_region :: "Bitmap \<Rightarrow> int list" where
  "data_region bm = map int [DATA_START..<nat (total_blocks bm)]"

definition allocate_block :: "Bitmap \<Rightarrow> int \<times> Bitmap" where
  "allocate_block bm =
     (case find (is_free bm) (data_region bm) of
        Some i \<Rightarrow> (i, set_used bm i)
      | None \<Rightarrow> (-1, bm))"

fun allocate_blocks_loop :: "nat \<Rightarrow> int list \<Rightarrow> Bitmap \<Rightarrow> int list \<times> Bitmap" where
  "allocate_blocks_loop 0 blocks bm = (blocks, bm)"
| "allocate_blocks_loop (Suc k) blocks bm =
     (case allocate_block bm of
        (block, bm') \<Rightarrow>
          if block = -1 then ([], foldl set_free bm' blocks)
          else allocate_blocks_loop k (blocks @ [block]) bm')"

definition allocate_blocks :: "Bitmap \<Rightarrow> int \<Rightarrow> int list \<times> Bitmap" where
  "allocate_blocks bm count = allocate_blocks_loop (nat count) [] bm"

definition free_blocks_count :: "Bitmap \<Rightarrow> int" where
  "free_blocks_count bm = int (length (filter (is_free bm) (data_region bm)))"

definition bitmap_ok :: "Bitmap \<Rightarrow> bool" where
  "bitmap_ok bm \<longleftrightarrow> 0 \<le> total_blocks bm \<and> length (bits bm) = nat ((total_blocks bm + 7) div 8)"

section \<open>IndexBlock and SuperBlock\<close>

text \<open>An index block is its list \<open>indices\<close>; \<open>struct.pack\<close> with sixteen \<open>i\<close> formats
  raises unless it gets exactly sixteen values, and \<open>struct.unpack\<close> unless it gets 64
  bytes.\<close>

definition IndexBlock_init :: "int list" where
  "IndexBlock_init = replicate 16 (-1)"

definition IndexBlock_to_bytes :: "int list \<Rightarrow> exn + bytes" where
  "IndexBlock_to_bytes indices =
     (if length indices \<noteq> 16 then Inl StructError
      else bindE (mapE pack_i indices) (\<lambda>bs. Inr (concat bs)))"

definition IndexBlock_from_bytes :: "bytes \<Rightarrow> exn + int list" where
  "IndexBlock_from_bytes dat =
     (if length (take 64 dat) \<noteq> 64 then Inl StructError
      else Inr (map (\<lambda>i. le_sint (take 4 (drop (4 * i) dat))) [0..<16]))"

text \<open>The slice assignment \<open>indices[:len(xs)] = xs\<close> on a list \<open>indices\<close>.\<close>

definition assign_prefix :: "int list \<Rightarrow> int list \<Rightarrow> int list" where
  "assign_prefix indices xs = xs @ drop (length xs) indices"

record SuperBlock =
  magic :: int
  sb_total_blocks :: int
  block_size :: int
  free_blocks :: int
  free_inodes :: int
  inode_count :: int
  data_start :: int

definition SuperBlock_init :: SuperBlock where
  "SuperBlock_init = \<lparr>magic = 0x4F534653, sb_total_blocks = int TOTAL_BLOCKS,
     block_size = int BLOCK_SIZE, free_blocks = int TOTAL_BLOCKS - int DATA_START,
     free_inodes = int MAX_INODES, inode_count = int MAX_INODES, data_start = int DATA_START\<rparr>"

definition SuperBlock_to_bytes :: "SuperBlock \<Rightarrow> exn + bytes" where
  "SuperBlock_to_bytes sb =
     bindE (mapE pack_I [magic sb, sb_total_blocks sb, block_size sb, free_blocks sb,
                         free_inodes sb, inode_count sb, data_start sb])
       (\<lambda>bs. Inr (ljust BLOCK_SIZE 0 (concat bs)))"

section \<open>FileSystem\<close>

text \<open>
  The state of a mounted file system: the disk, the superblock, the bitmap and the inode
  table, the dictionary with keys \<open>0 .. MAX_INODES - 1\<close> in key order, as \<open>format_disk\<close>
  builds it. A method returns its result, or the exception it raised, and the state it
  left. The messages are the kinds of the (Chinese) texts the methods return.
\<close>

record FileSystem =
  disk :: disk
  superblock :: SuperBlock
  bitmap :: Bitmap
  inodes :: "INode list"

datatype msg =
    AlreadyExists pystr
  | InodesFull
  | NoSpace
  | Created pystr nat
  | NotFound pystr
  | NoWritePermission
  | InUse pystr
  | DiskNoSpace
  | Written pystr nat nat
  | InUseCannotDelete pystr
  | Deleted pystr

type_synonym 'a fsop = "FileSystem \<Rightarrow> (exn + 'a) \<times> FileSystem"

definition bindS :: "'a fsop \<Rightarrow> ('a \<Rightarrow> 'b fsop) \<Rightarrow> 'b fsop" where
  "bindS m f fs = (case m fs of (Inl e, fs') \<Rightarrow> (Inl e, fs') | (Inr a, fs') \<Rightarrow> f a fs')"

definition disk_write :: "int \<Rightarrow> bytes \<Rightarrow> unit fsop" where
  "disk_write block_no dat fs =
     (case VirtualDisk_write_block (disk fs) block_no dat of
        Inl e \<Rightarrow> (Inl e, fs)
      | Inr d' \<Rightarrow> (Inr (), fs\<lparr>disk := d'\<rparr>))"

definition disk_read :: "int \<Rightarrow> bytes fsop" where
  "disk_read block_no fs =
     (case VirtualDisk_read_block (disk fs) block_no of
        Inl e \<Rightarrow> (Inl e, fs)
      | Inr dat \<Rightarrow> (Inr dat, fs))"

definition liftE :: "exn + 'a \<Rightarrow> 'a fsop" where
  "liftE m fs = (case m of Inl e \<Rightarrow> (Inl e, fs) | Inr a \<Rightarrow> (Inr a, fs))"

fun save_inodes_loop :: "nat list \<Rightarrow> unit fsop" where
  "save_inodes_loop [] fs = (Inr (), fs)"
| "save_inodes_loop (i # ids) fs =
     (if i < length (inodes fs)
      then bindS (liftE (INode_to_bytes (inodes fs ! i))) (\<lambda>inode_bytes.
           bindS (disk_write (INODE_START + int i) inode_bytes) (\<lambda>_.
           save_inodes_loop ids)) fs
      else save_inodes_loop ids fs)"

definition save_inodes :: "unit fsop" where
  "save_inodes = save_inodes_loop [0..<MAX_INODES]"

definition save_bitmap :: "unit fsop" where
  "save_bitmap fs =
     (let bitmap_data = bits (bitmap fs) in
      bindS (disk_write BITMAP_START (take BLOCK_SIZE bitmap_data)) (\<lambda>_.
      disk_write (BITMAP_START + 1) (take BLOCK_SIZE (drop BLOCK_SIZE bitmap_data))) fs)"

text \<open>The last three statements of \<open>create_file\<close>, \<open>write_file\<close> and \<open>delete_file\<close>
  after \<open>_save_inodes\<close>: save the bitmap, recount the free blocks, write the superblock.\<close>

definition save_superblock :: "unit fsop" where
  "save_superblock fs =
     (let fs' = fs\<lparr>superblock := (superblock fs)\<lparr>free_blocks := free_blocks_count (bitmap fs)\<rparr>\<rparr>
      in bindS (liftE (SuperBlock_to_bytes (superblock fs'))) (\<lambda>sb_bytes.
         disk_write SUPERBLOCK_START sb_bytes) fs')"

definition save_metadata :: "unit fsop" where
  "save_metadata = bindS save_inodes (\<lambda>_. bindS save_bitmap (\<lambda>_. save_superblock))"

text \<open>\<open>format_disk\<close> on a host that admits files up to \<open>limit\<close> bytes: the file system
  it leaves when it returns, or the exception it raises.\<close>

definition format_disk :: "int \<Rightarrow> exn + FileSystem" where
  "format_disk limit =
     (case create_disk limit of
        (Inl e, _) \<Rightarrow> Inl e
      | (Inr _, d0) \<Rightarrow>
          bindE (SuperBlock_to_bytes SuperBlock_init) (\<lambda>sb_bytes.
          bindE (VirtualDisk_write_block d0 SUPERBLOCK_START sb_bytes) (\<lambda>d1.
          bindE (Bitmap_init (int TOTAL_BLOCKS)) (\<lambda>bm.
            case bindS save_bitmap (\<lambda>_. save_inodes)
                   \<lparr>disk = d1, superblock = SuperBlock_init, bitmap = bm,
                    inodes = map (\<lambda>i. new_inode (int i)) [0..<MAX_INODES]\<rparr> of
              (Inl e, _) \<Rightarrow> Inl e
            | (Inr _, fs) \<Rightarrow> Inr fs))))"

definition find_inode :: "FileSystem \<Rightarrow> pystr \<Rightarrow> nat option" where
  "find_inode fs fname =
     find (\<lambda>i. is_used (inodes fs ! i) \<and> filename (inodes fs ! i) = fname)
       [0..<length (inodes fs)]"

definition allocate_inode :: "real \<Rightarrow> nat option fsop" where
  "allocate_inode now fs =
     (case find (\<lambda>i. length (inodes fs) \<le> i \<or> \<not> is_used (inodes fs ! i)) [0..<MAX_INODES] of
        None \<Rightarrow> (Inr None, fs)
      | Some i \<Rightarrow>
          if length (inodes fs) \<le> i then (Inl KeyError, fs)
          else (Inr (Some i),
                fs\<lparr>inodes := (inodes fs)[i := (inodes fs ! i)\<lparr>is_used := True,
                       inode_id := int i, create_time := now, modify_time := now\<rparr>],
                   superblock := (superblock fs)\<lparr>free_inodes := free_inodes (superblock fs) - 1\<rparr>\<rparr>))"

definition blocks_for :: "bytes \<Rightarrow> int" where
  "blocks_for content =
     (let blocks_needed = (int (length content) + int BLOCK_SIZE - 1) div int BLOCK_SIZE
      in if blocks_needed = 0 then 1 else blocks_needed)"

fun write_content :: "bool \<Rightarrow> (nat \<times> int) list \<Rightarrow> bytes \<Rightarrow> unit fsop" where
  "write_content pad [] content fs = (Inr (), fs)"
| "write_content pad ((i, block_no) # rest) content fs =
     (let block_data = take BLOCK_SIZE (drop (i * BLOCK_SIZE) content)
      in bindS (disk_write block_no (if pad then ljust BLOCK_SIZE 0 block_data else block_data))
           (\<lambda>_. write_content pad rest content) fs)"

definition enumerate_blocks :: "int list \<Rightarrow> (nat \<times> int) list" where
  "enumerate_blocks all_blocks = zip [0..<length all_blocks] all_blocks"

text \<open>Lines 479 to 498 of \<open>create_file\<close>, after the blocks are allocated: write the
  content, fill in the inode, save the metadata.\<close>

definition create_file_finish ::
  "nat \<Rightarrow> pystr \<Rightarrow> bytes \<Rightarrow> int \<Rightarrow> int list \<Rightarrow> (bool \<times> msg) fsop" where
  "create_file_finish i fname content perm all_blocks =
     bindS (write_content False (enumerate_blocks all_blocks) content) (\<lambda>_.
     bindS (\<lambda>fs. (Inr (),
              fs\<lparr>inodes := (inodes fs)[i := (inodes fs ! i)\<lparr>filename := take MAX_FILENAME fname,
                     file_size := int (length content), permission := perm,
                     ref_count := 0\<rparr>]\<rparr>)) (\<lambda>_.
     bindS save_metadata (\<lambda>_ fs.
     (Inr (True, Created fname (length all_blocks)), fs))))"

definition set_inode_blocks :: "nat \<Rightarrow> int list \<Rightarrow> int \<Rightarrow> FileSystem \<Rightarrow> FileSystem" where
  "set_inode_blocks i direct indirect fs =
     fs\<lparr>inodes := (inodes fs)[i := (inodes fs ! i)\<lparr>direct_blocks := direct,
                                                    indirect_block := indirect\<rparr>]\<rparr>"

definition create_file ::
  "FileSystem \<Rightarrow> real \<Rightarrow> pystr \<Rightarrow> bytes \<Rightarrow> int \<Rightarrow> (exn + bool \<times> msg) \<times> FileSystem" where
  "create_file fs now fname content perm =
     (if \<exists>inode \<in> set (inodes fs). is_used inode \<and> filename inode = fname
      then (Inr (False, AlreadyExists fname), fs)
      else
        (case allocate_inode now fs of
           (Inl e, fs1) \<Rightarrow> (Inl e, fs1)
         | (Inr None, fs1) \<Rightarrow> (Inr (False, InodesFull), fs1)
         | (Inr (Some i), fs1) \<Rightarrow>
             (let blocks_needed =
                    (if blocks_for content > int DIRECT_BLOCKS then blocks_for content + 1
                     else blocks_for content)
              in
                if blocks_needed > int DIRECT_BLOCKS + 1 then
                  (case allocate_blocks (bitmap fs1) (int DIRECT_BLOCKS) of
                     (data_blocks, bm1) \<Rightarrow>
                       if length data_blocks < DIRECT_BLOCKS
                       then (Inr (False, NoSpace), fs1\<lparr>bitmap := bm1\<rparr>)
                       else
                         (case allocate_block bm1 of
                            (indirect, bm2) \<Rightarrow>
                              if indirect = -1
                              then (Inr (False, NoSpace),
                                    fs1\<lparr>bitmap := foldl set_free bm2 data_blocks\<rparr>)
                              else
                                (case allocate_blocks bm2
                                        (blocks_needed - int DIRECT_BLOCKS - 1) of
                                   (extra_blocks, bm3) \<Rightarrow>
                                     if int (length extra_blocks)
                                          < blocks_needed - int DIRECT_BLOCKS - 1
                                     then (Inr (False, NoSpace),
                                           fs1\<lparr>bitmap :=
                                             foldl set_free bm3 (data_blocks @ [indirect])\<rparr>)
                                     else
                                       bindS (liftE (IndexBlock_to_bytes
                                                (assign_prefix IndexBlock_init extra_blocks)))
                                         (\<lambda>idx_bytes.
                                       bindS (disk_write indirect idx_bytes) (\<lambda>_.
                                       create_file_finish i fname content perm
                                         (data_blocks @ extra_blocks)))
                                         (set_inode_blocks i data_blocks indirect
                                            (fs1\<lparr>bitmap := bm3\<rparr>)))))
                else
                  (case allocate_blocks (bitmap fs1) blocks_needed of
                     (data_blocks, bm1) \<Rightarrow>
                       if int (length data_blocks) < blocks_needed
                       then (Inr (False, NoSpace), fs1\<lparr>bitmap := bm1\<rparr>)
                       else
                         create_file_finish i fname content perm data_blocks
                           (set_inode_blocks i
                              (data_blocks @ replicate (DIRECT_BLOCKS - length data_blocks) (-1))
                              (indirect_block (inodes fs1 ! i))
                              (fs1\<lparr>bitmap := bm1\<rparr>))))))"

text \<open>The blocks of a file in order: the direct blocks that are set, then the entries
  that are set of the index block read from the disk.\<close>

definition file_blocks :: "INode \<Rightarrow> int list fsop" where
  "file_blocks inode fs =
     (let direct = filter (\<lambda>b. 0 \<le> b) (direct_blocks inode) in
      if 0 \<le> indirect_block inode then
        bindS (disk_read (indirect_block inode)) (\<lambda>idx_data.
        bindS (liftE (IndexBlock_from_bytes idx_data)) (\<lambda>indices fs'.
        (Inr (direct @ filter (\<lambda>b. 0 \<le> b) indices), fs'))) fs
      else (Inr direct, fs))"

definition delete_file :: "FileSystem \<Rightarrow> pystr \<Rightarrow> (exn + bool \<times> msg) \<times> FileSystem" where
  "delete_file fs fname =
     (case find_inode fs fname of
        None \<Rightarrow> (Inr (False, NotFound fname), fs)
      | Some i \<Rightarrow>
          let inode = inodes fs ! i in
          if ref_count inode > 0 then (Inr (False, InUseCannotDelete fname), fs)
          else
            (let fs1 = fs\<lparr>bitmap := foldl set_free (bitmap fs)
                                        (filter (\<lambda>b. 0 \<le> b) (direct_blocks inode))\<rparr>
             in
               bindS (if 0 \<le> indirect_block inode then
                        bindS (disk_read (indirect_block inode)) (\<lambda>idx_data.
                        bindS (liftE (IndexBlock_from_bytes idx_data)) (\<lambda>indices fs2.
                        (Inr (),
                         fs2\<lparr>bitmap := set_free
                                (foldl set_free (bitmap fs2) (filter (\<lambda>b. 0 \<le> b) indices))
                                (indirect_block inode)\<rparr>)))
                      else (\<lambda>fs2. (Inr (), fs2))) (\<lambda>_.
               bindS (\<lambda>fs3. (Inr (),
                        fs3\<lparr>inodes := (inodes fs3)[i := (inodes fs3 ! i)\<lparr>is_used := False,
                               filename := [], file_size := 0,
                               direct_blocks := replicate DIRECT_BLOCKS (-1),
                               indirect_block := -1, ref_count := 0\<rparr>],
                            superblock := (superblock fs3)\<lparr>free_inodes :=
                               free_inodes (superblock fs3) + 1\<rparr>\<rparr>)) (\<lambda>_.
               bindS save_metadata (\<lambda>_ fs4.
               (Inr (True, Deleted fname), fs4)))) fs1))"

definition acquire_file :: "FileSystem \<Rightarrow> pystr \<Rightarrow> (exn + bool) \<times> FileSystem" where
  "acquire_file fs fname =
     (case find_inode fs fname of
        Some i \<Rightarrow>
          bindS save_inodes (\<lambda>_ fs'. (Inr True, fs'))
            (fs\<lparr>inodes := (inodes fs)[i := (inodes fs ! i)\<lparr>ref_count :=
                                             ref_count (inodes fs ! i) + 1\<rparr>]\<rparr>)
      | None \<Rightarrow> (Inr False, fs))"

definition release_file :: "FileSystem \<Rightarrow> pystr \<Rightarrow> (exn + bool) \<times> FileSystem" where
  "release_file fs fname =
     (case find_inode fs fname of
        Some i \<Rightarrow>
          if ref_count (inodes fs ! i) > 0 then
            bindS save_inodes (\<lambda>_ fs'. (Inr True, fs'))
              (fs\<lparr>inodes := (inodes fs)[i := (inodes fs ! i)\<lparr>ref_count :=
                                               ref_count (inodes fs ! i) - 1\<rparr>]\<rparr>)
          else (Inr False, fs)
      | None \<Rightarrow> (Inr False, fs))"

text \<open>Lines 675 to 692 of \<open>write_file\<close>.\<close>

definition write_file_finish ::
  "real \<Rightarrow> nat \<Rightarrow> pystr \<Rightarrow> bytes \<Rightarrow> int list \<Rightarrow> (bool \<times> msg) fsop" where
  "write_file_finish now i fname content all_blocks =
     bindS (write_content True (enumerate_blocks all_blocks) content) (\<lambda>_.
     bindS (\<lambda>fs. (Inr (),
              fs\<lparr>inodes := (inodes fs)[i := (inodes fs ! i)\<lparr>file_size := int (length content),
                     modify_time := now\<rparr>]\<rparr>)) (\<lambda>_.
     bindS save_metadata (\<lambda>_ fs.
     (Inr (True, Written fname (length content) (length all_blocks)), fs))))"

text \<open>Lines 631 to 638 and 665 to 673: the direct list and, above \<open>DIRECT_BLOCKS\<close>
  blocks, the index block written to the inode's indirect block.\<close>

definition write_file_index :: "nat \<Rightarrow> int \<Rightarrow> int list \<Rightarrow> unit fsop" where
  "write_file_index i new_blocks_needed blocks fs =
     (let fs1 = fs\<lparr>inodes := (inodes fs)[i := (inodes fs ! i)\<lparr>direct_blocks :=
                   take DIRECT_BLOCKS blocks @ replicate (DIRECT_BLOCKS - length blocks) (-1)\<rparr>]\<rparr>
      in if new_blocks_needed > int DIRECT_BLOCKS then
           bindS (liftE (IndexBlock_to_bytes
                    (assign_prefix IndexBlock_init (drop DIRECT_BLOCKS blocks)))) (\<lambda>idx_bytes.
           disk_write (indirect_block (inodes fs1 ! i)) idx_bytes) fs1
         else (Inr (), fs1))"

definition write_file ::
  "FileSystem \<Rightarrow> real \<Rightarrow> pystr \<Rightarrow> bytes \<Rightarrow> (exn + bool \<times> msg) \<times> FileSystem" where
  "write_file fs now fname content =
     (case find_inode fs fname of
        None \<Rightarrow> (Inr (False, NotFound fname), fs)
      | Some i \<Rightarrow>
          let inode = inodes fs ! i in
          if permission inode AND 2 = 0 then (Inr (False, NoWritePermission), fs)
          else if ref_count inode > 0 then (Inr (False, InUse fname), fs)
          else
            (let new_blocks_needed = blocks_for content;
                 old_indirect_block = indirect_block inode
             in
               bindS (file_blocks inode) (\<lambda>old_blocks fs0.
                 let old_blocks_count = int (length old_blocks) in
                 if new_blocks_needed \<le> old_blocks_count then
                   (let blocks_to_use = take (nat new_blocks_needed) old_blocks;
                        blocks_to_free = drop (nat new_blocks_needed) old_blocks;
                        fs1 = fs0\<lparr>bitmap := foldl set_free (bitmap fs0) blocks_to_free\<rparr>;
                        fs2 = (if new_blocks_needed \<le> int DIRECT_BLOCKS \<and> 0 \<le> old_indirect_block
                               then fs1\<lparr>bitmap := set_free (bitmap fs1) old_indirect_block,
                                       inodes := (inodes fs1)[i := (inodes fs1 ! i)\<lparr>
                                                    indirect_block := -1\<rparr>]\<rparr>
                               else fs1)
                    in bindS (write_file_index i new_blocks_needed blocks_to_use) (\<lambda>_.
                       write_file_finish now i fname content blocks_to_use) fs2)
                 else
                   (let need_new_indirect =
                          (new_blocks_needed > int DIRECT_BLOCKS \<and> old_indirect_block < 0);
                        extra_needed = new_blocks_needed - old_blocks_count
                                         + (if need_new_indirect then 1 else 0)
                    in case allocate_blocks (bitmap fs0) extra_needed of
                         (new_blocks, bm1) \<Rightarrow>
                           if int (length new_blocks) < extra_needed
                           then (Inr (False, DiskNoSpace),
                                 fs0\<lparr>bitmap := foldl set_free bm1 new_blocks\<rparr>)
                           else
                             (let fs1 = fs0\<lparr>bitmap := bm1\<rparr> in
                              if need_new_indirect then
                                (case new_blocks of
                                   [] \<Rightarrow> (Inl IndexError, fs1)
                                 | first # rest \<Rightarrow>
                                     bindS (write_file_index i new_blocks_needed (old_blocks @ rest))
                                       (\<lambda>_. write_file_finish now i fname content (old_blocks @ rest))
                                       (fs1\<lparr>inodes := (inodes fs1)[i := (inodes fs1 ! i)\<lparr>
                                                         indirect_block := first\<rparr>]\<rparr>))
                              else
                                bindS (write_file_index i new_blocks_needed (old_blocks @ new_blocks))
                                  (\<lambda>_. write_file_finish now i fname content
                                          (old_blocks @ new_blocks)) fs1))) fs))"

text \<open>The operations that change the file system, and the states they reach from a
  freshly formatted disk, whatever the host's limit.\<close>

datatype fs_op =
    CreateFile real pystr bytes int
  | WriteFile real pystr bytes
  | DeleteFile pystr
  | AcquireFile pystr
  | ReleaseFile pystr

fun run_fs_op :: "FileSystem \<Rightarrow> fs_op \<Rightarrow> FileSystem" where
  "run_fs_op fs (CreateFile now fname content perm) = snd (create_file fs now fname content perm)"
| "run_fs_op fs (WriteFile now fname content) = snd (write_file fs now fname content)"
| "run_fs_op fs (DeleteFile fname) = snd (delete_file fs fname)"
| "run_fs_op fs (AcquireFile fname) = snd (acquire_file fs fname)"
| "run_fs_op fs (ReleaseFile fname) = snd (release_file fs fname)"

inductive fs_reachable :: "FileSystem \<Rightarrow> bool" where
  formatted: "format_disk limit = Inr fs \<Longrightarrow> fs_reachable fs"
| fs_step: "fs_reachable fs \<Longrightarrow> fs_reachable (run_fs_op fs op)"

subsection \<open>Inodes that a 64-byte record can hold\<close>

text \<open>
  \<open>packable\<close>: \<open>to_bytes\<close> does not raise, that is every number fits the field
  \<open>struct.pack\<close> is given for it and the name can be encoded. \<open>storable\<close>: moreover
  the permission and the reference count fit their three bits, there are exactly
  \<open>DIRECT_BLOCKS\<close> direct entries, and the encoded name fits its 20 bytes without a
  trailing NUL byte.
\<close>

definition packable :: "INode \<Rightarrow> bool" where
  "packable n \<longleftrightarrow>
     0 \<le> inode_id n \<and> inode_id n \<le> 255 \<and> 0 \<le> file_size n \<and> file_size n \<le> 4294967295 \<and>
     (\<forall>b \<in> set (take DIRECT_BLOCKS (direct_blocks n)). - 32768 \<le> b \<and> b \<le> 32767) \<and>
     - 32768 \<le> indirect_block n \<and> indirect_block n \<le> 32767 \<and>
     (\<exists>enc. utf8_encode (filename n) = Inr enc)"

definition storable :: "INode \<Rightarrow> bool" where
  "storable n \<longleftrightarrow>
     packable n \<and> 0 \<le> permission n \<and> permission n \<le> 7 \<and> 0 \<le> ref_count n \<and> ref_count n \<le> 7 \<and>
     length (direct_blocks n) = DIRECT_BLOCKS \<and>
     (\<exists>enc. utf8_encode (filename n) = Inr enc \<and> length enc \<le> MAX_FILENAME \<and>
            (enc = [] \<or> last enc \<noteq> 0))"

text \<open>The direct block list as \<open>to_bytes\<close> stores it: ten entries, missing ones as -1.\<close>

definition stored_direct :: "INode \<Rightarrow> int list" where
  "stored_direct n = map (\<lambda>i. if i < length (direct_blocks n) then direct_blocks n ! i else -1)
                       [0..<DIRECT_BLOCKS]"

text \<open>Two inodes: one with a reference count that does not fit three bits, and a
  used inode of a file \<open>a.txt\<close> of 100 bytes in the blocks 35 and 36.\<close>

definition wide_ref_inode :: INode where
  "wide_ref_inode = (new_inode 0)\<lparr>ref_count := 8\<rparr>"

definition sample_inode :: INode where
  "sample_inode = (new_inode 3)\<lparr>filename := [97, 46, 116, 120, 116], file_size := 100,
     is_used := True, ref_count := 1, direct_blocks := [35, 36] @ replicate 8 (- 1)\<rparr>"

subsection \<open>Reference counts\<close>

definition refs_ok :: "FileSystem \<Rightarrow> bool" where
  "refs_ok fs \<longleftrightarrow> (\<forall>n \<in> set (inodes fs). 0 \<le> ref_count n)"

section \<open>Verification\<close>

subsection \<open>Block store\<close>

lemma seek_Inr: "seek d off = Inr pos \<Longrightarrow> 0 \<le> off \<and> pos = nat off \<and> off \<le> offset_limit d"
  by (auto simp add: seek_def split: if_splits)

lemma seek_addressable:
  "addressable d n \<Longrightarrow> seek d (n * 64) = Inr (nat n * 64)"
  by (auto simp add: seek_def addressable_def nat_mult_distrib)

lemma read_block_Inr_nonneg:
  "VirtualDisk_read_block d n = Inr x \<Longrightarrow> 0 \<le> n"
  by (auto simp add: VirtualDisk_read_block_def split: sum.splits dest!: seek_Inr)

lemma read_block_addressable:
  "addressable d n \<Longrightarrow>
   VirtualDisk_read_block d n = Inr (take BLOCK_SIZE (drop (nat n * BLOCK_SIZE) (file_bytes d)))"
  by (simp add: VirtualDisk_read_block_def seek_addressable)

lemma write_block_addressable:
  assumes "addressable d n"
  shows "VirtualDisk_write_block d n dat =
     Inr (d\<lparr>file_bytes :=
            take (nat n * BLOCK_SIZE)
              (file_bytes d @ replicate (nat n * BLOCK_SIZE - length (file_bytes d)) 0)
            @ ljust BLOCK_SIZE 0 (take BLOCK_SIZE dat)
            @ drop (nat n * BLOCK_SIZE + BLOCK_SIZE)
                (file_bytes d @ replicate (nat n * BLOCK_SIZE - length (file_bytes d)) 0)\<rparr>)"
proof -
  from assms have "\<not> offset_limit d < int (nat n * 64 + 64)"
    by (simp add: addressable_def)
  then show ?thesis
    by (simp add: VirtualDisk_write_block_def seek_addressable [OF assms] Let_def)
qed

lemma write_block_limit:
  "VirtualDisk_write_block d n dat = Inr d' \<Longrightarrow> offset_limit d' = offset_limit d"
  by (auto simp add: VirtualDisk_write_block_def Let_def split: sum.splits if_splits)

lemma addressable_limit:
  "offset_limit d' = offset_limit d \<Longrightarrow> addressable d' n = addressable d n"
  by (simp add: addressable_def)

lemma addressable_fresh_disk: "0 \<le> n \<Longrightarrow> n < 1024 \<Longrightarrow> addressable fresh_disk n"
  by (simp add: addressable_def fresh_disk_def)

subsection \<open>Buffer cache: flushing\<close>

lemma flush_all_loop_page:
  "flush_all_loop ids s = (r, s1) \<Longrightarrow> \<forall>i \<in> set ids. i < length (pages s) \<Longrightarrow>
     length (pages s1) = length (pages s) \<and>
     (pages s1 ! j = pages s ! j \<or> pages s1 ! j = (pages s ! j)\<lparr>is_dirty := False\<rparr>)"
proof (induction ids arbitrary: s)
  case Nil
  then show ?case by simp
next
  case (Cons i ids)
  show ?case
  proof (cases "is_valid (pages s ! i) \<and> is_dirty (pages s ! i)")
    case False
    with Cons show ?thesis by (auto simp add: Let_def)
  next
    case True
    show ?thesis
    proof (cases "VirtualDisk_write_block (fs_disk s) (block_num (pages s ! i)) (data (pages s ! i))")
      case (Inl e)
      with True Cons.prems show ?thesis by (simp add: Let_def)
    next
      case (Inr d')
      let ?s' = "s\<lparr>fs_disk := d', pages := (pages s)[i := (pages s ! i)\<lparr>is_dirty := False\<rparr>],
                  writeback_count := writeback_count s + 1\<rparr>"
      from True Inr Cons.prems have "flush_all_loop ids ?s' = (r, s1)" by (simp add: Let_def)
      from Cons.IH [OF this] Cons.prems(2) show ?thesis
        by (cases "i = j") auto
    qed
  qed
qed

lemma flush_all_loop_idem:
  "\<forall>i \<in> set ids. i < length (pages s) \<Longrightarrow>
   flush_all_loop ids (snd (flush_all_loop ids s)) = flush_all_loop ids s"
proof (induction ids arbitrary: s)
  case Nil
  then show ?case by simp
next
  case (Cons i ids)
  from Cons.prems have ids: "\<forall>i \<in> set ids. i < length (pages s)" and i: "i < length (pages s)"
    by simp_all
  show ?case
  proof (cases "is_valid (pages s ! i) \<and> is_dirty (pages s ! i)")
    case False
    obtain r s1 where run: "flush_all_loop ids s = (r, s1)" by (cases "flush_all_loop ids s")
    from flush_all_loop_page [OF run ids, of i] False
    have clean: "\<not> (is_valid (pages s1 ! i) \<and> is_dirty (pages s1 ! i))" by auto
    have a: "flush_all_loop (i # ids) s = (r, s1)" using False run by (auto simp add: Let_def)
    have b: "flush_all_loop (i # ids) s1 = flush_all_loop ids s1" using clean by (auto simp add: Let_def)
    have c: "flush_all_loop ids s1 = (r, s1)" using Cons.IH [OF ids] run by simp
    show ?thesis by (simp only: a b c snd_conv)
  next
    case True
    show ?thesis
    proof (cases "VirtualDisk_write_block (fs_disk s) (block_num (pages s ! i)) (data (pages s ! i))")
      case (Inl e)
      with True have a: "flush_all_loop (i # ids) s = (Inl e, s)" by (simp add: Let_def)
      show ?thesis by (simp only: a snd_conv)
    next
      case (Inr d')
      let ?s' = "s\<lparr>fs_disk := d', pages := (pages s)[i := (pages s ! i)\<lparr>is_dirty := False\<rparr>],
                  writeback_count := writeback_count s + 1\<rparr>"
      have ids': "\<forall>i \<in> set ids. i < length (pages ?s')" using ids by simp
      obtain r s1 where run: "flush_all_loop ids ?s' = (r, s1)" by (cases "flush_all_loop ids ?s'")
      have "\<not> (is_valid (pages ?s' ! i) \<and> is_dirty (pages ?s' ! i))"
        using i by simp
      with flush_all_loop_page [OF run ids', of i]
      have clean: "\<not> (is_valid (pages s1 ! i) \<and> is_dirty (pages s1 ! i))" by auto
      have a: "flush_all_loop (i # ids) s = (r, s1)" using True Inr run by (simp add: Let_def)
      have b: "flush_all_loop (i # ids) s1 = flush_all_loop ids s1" using clean by (auto simp add: Let_def)
      have c: "flush_all_loop ids s1 = (r, s1)" using Cons.IH [OF ids'] run by simp
      show ?thesis by (simp only: a b c snd_conv)
    qed
  qed
qed

lemma flush_all_loop_done:
  assumes "fst (flush_all_loop ids s) = Inr ()"
    and "\<forall>i \<in> set ids. i < length (pages s)"
  shows "\<forall>i \<in> set ids. \<not> (is_valid (pages (snd (flush_all_loop ids s)) ! i)
                            \<and> is_dirty (pages (snd (flush_all_loop ids s)) ! i))"
  using assms
proof (induction ids arbitrary: s)
  case Nil
  then show ?case by simp
next
  case (Cons i ids)
  from Cons.prems have ids: "\<forall>i \<in> set ids. i < length (pages s)" and i: "i < length (pages s)"
    by simp_all
  show ?case
  proof (cases "is_valid (pages s ! i) \<and> is_dirty (pages s ! i)")
    case False
    obtain r s1 where run: "flush_all_loop ids s = (r, s1)" by (cases "flush_all_loop ids s")
    from flush_all_loop_page [OF run ids, of i] False
    have clean: "\<not> (is_valid (pages s1 ! i) \<and> is_dirty (pages s1 ! i))" by auto
    have a: "flush_all_loop (i # ids) s = (r, s1)" using False run by (auto simp add: Let_def)
    from Cons.prems(1) a run have "fst (flush_all_loop ids s) = Inr ()" by simp
    from Cons.IH [OF this ids] run clean show ?thesis by (simp only: a) simp
  next
    case True
    show ?thesis
    proof (cases "VirtualDisk_write_block (fs_disk s) (block_num (pages s ! i)) (data (pages s ! i))")
      case (Inl e)
      with True have "flush_all_loop (i # ids) s = (Inl e, s)" by (simp add: Let_def)
      with Cons.prems(1) show ?thesis by simp
    next
      case (Inr d')
      let ?s' = "s\<lparr>fs_disk := d', pages := (pages s)[i := (pages s ! i)\<lparr>is_dirty := False\<rparr>],
                  writeback_count := writeback_count s + 1\<rparr>"
      have ids': "\<forall>i \<in> set ids. i < length (pages ?s')" using ids by simp
      obtain r s1 where run: "flush_all_loop ids ?s' = (r, s1)" by (cases "flush_all_loop ids ?s'")
      have "\<not> (is_valid (pages ?s' ! i) \<and> is_dirty (pages ?s' ! i))"
        using i by simp
      with flush_all_loop_page [OF run ids', of i]
      have clean: "\<not> (is_valid (pages s1 ! i) \<and> is_dirty (pages s1 ! i))" by auto
      have a: "flush_all_loop (i # ids) s = (r, s1)" using True Inr run by (simp add: Let_def)
      from Cons.prems(1) a run have "fst (flush_all_loop ids ?s') = Inr ()" by simp
      from Cons.IH [OF this ids'] run clean show ?thesis by (simp only: a) simp
    qed
  qed
qed

lemma flush_all_loop_returns:
  assumes "\<forall>i \<in> set ids. i < length (pages s) \<and>
             (is_valid (pages s ! i) \<and> is_dirty (pages s ! i)
                \<longrightarrow> addressable (fs_disk s) (block_num (pages s ! i)))"
  shows "fst (flush_all_loop ids s) = Inr ()"
  using assms
proof (induction ids arbitrary: s)
  case Nil
  then show ?case by simp
next
  case (Cons i ids)
  from Cons.prems have ids: "\<forall>i \<in> set ids. i < length (pages s) \<and>
             (is_valid (pages s ! i) \<and> is_dirty (pages s ! i)
                \<longrightarrow> addressable (fs_disk s) (block_num (pages s ! i)))"
    and i: "i < length (pages s)" by simp_all
  show ?case
  proof (cases "is_valid (pages s ! i) \<and> is_dirty (pages s ! i)")
    case False
    have a: "flush_all_loop (i # ids) s = flush_all_loop ids s"
      using False by (auto simp add: Let_def)
    from Cons.IH [OF ids] show ?thesis by (simp only: a)
  next
    case True
    with Cons.prems have adr: "addressable (fs_disk s) (block_num (pages s ! i))" by simp
    from write_block_addressable [OF adr, of "data (pages s ! i)"]
    obtain d' where Inr: "VirtualDisk_write_block (fs_disk s) (block_num (pages s ! i)) (data (pages s ! i)) = Inr d'"
      by blast
    from write_block_limit [OF Inr] have lim: "offset_limit d' = offset_limit (fs_disk s)" .
    let ?s' = "s\<lparr>fs_disk := d', pages := (pages s)[i := (pages s ! i)\<lparr>is_dirty := False\<rparr>],
                  writeback_count := writeback_count s + 1\<rparr>"
    have ids': "\<forall>j \<in> set ids. j < length (pages ?s') \<and>
             (is_valid (pages ?s' ! j) \<and> is_dirty (pages ?s' ! j)
                \<longrightarrow> addressable (fs_disk ?s') (block_num (pages ?s' ! j)))"
    proof
      fix j assume j: "j \<in> set ids"
      with ids have jl: "j < length (pages s)"
        and ja: "is_valid (pages s ! j) \<and> is_dirty (pages s ! j)
                   \<longrightarrow> addressable (fs_disk s) (block_num (pages s ! j))" by simp_all
      show "j < length (pages ?s') \<and>
             (is_valid (pages ?s' ! j) \<and> is_dirty (pages ?s' ! j)
                \<longrightarrow> addressable (fs_disk ?s') (block_num (pages ?s' ! j)))"
        using jl ja i addressable_limit [OF lim] by (cases "i = j") simp_all
    qed
    have a: "flush_all_loop (i # ids) s = flush_all_loop ids ?s'"
      using True Inr by (simp add: Let_def)
    from Cons.IH [OF ids'] show ?thesis by (simp only: a)
  qed
qed

text \<open>
  C8. Calling \<open>flush_all\<close> twice in a row: the second call returns what the first
  returned and changes nothing, neither the write-back counter nor any page nor the disk,
  in every buffer state. When only valid pages are dirty (as in every reachable state) and
  the first call returns, it leaves no page dirty; and it does return when the block of
  every valid dirty page can be written on the disk.
\<close>

theorem flush_all_twice:
  "flush_all (snd (flush_all s)) = (fst (flush_all s), snd (flush_all s)) \<and>
   writeback_count (snd (flush_all (snd (flush_all s)))) = writeback_count (snd (flush_all s)) \<and>
   pages (snd (flush_all (snd (flush_all s)))) = pages (snd (flush_all s)) \<and>
   ((\<forall>p \<in> set (pages s). is_dirty p \<longrightarrow> is_valid p) \<and> fst (flush_all s) = Inr ()
      \<longrightarrow> (\<forall>p \<in> set (pages (snd (flush_all s))). \<not> is_dirty p)) \<and>
   ((\<forall>p \<in> set (pages s). is_valid p \<and> is_dirty p \<longrightarrow> addressable (fs_disk s) (block_num p))
      \<longrightarrow> fst (flush_all s) = Inr ())"
proof -
  obtain r s1 where run: "flush_all s = (r, s1)" by (cases "flush_all s")
  have ids: "\<forall>i \<in> set [0..<length (pages s)]. i < length (pages s)" by simp
  from run have loop: "flush_all_loop [0..<length (pages s)] s = (r, s1)"
    by (simp add: flush_all_def)
  from flush_all_loop_page [OF loop ids] have len: "length (pages s1) = length (pages s)"
    by simp
  have again: "flush_all s1 = (r, s1)"
    using flush_all_loop_idem [OF ids] loop len by (simp add: flush_all_def)
  have clean: "\<forall>p \<in> set (pages s1). \<not> is_dirty p"
    if ok: "\<forall>p \<in> set (pages s). is_dirty p \<longrightarrow> is_valid p" and r: "r = Inr ()"
  proof -
    from r loop have "fst (flush_all_loop [0..<length (pages s)] s) = Inr ()" by simp
    from flush_all_loop_done [OF this ids] loop
    have c: "\<forall>i < length (pages s). \<not> (is_valid (pages s1 ! i) \<and> is_dirty (pages s1 ! i))"
      by simp
    have "\<not> is_dirty p" if "p \<in> set (pages s1)" for p
    proof -
      from that len obtain i where i: "i < length (pages s)" and p: "p = pages s1 ! i"
        by (auto simp add: in_set_conv_nth)
      from flush_all_loop_page [OF loop ids, of i] ok i
      have "is_dirty (pages s1 ! i) \<longrightarrow> is_valid (pages s1 ! i)"
        by auto
      with c i p show ?thesis by blast
    qed
    then show ?thesis by blast
  qed
  have returns: "r = Inr ()"
    if adr: "\<forall>p \<in> set (pages s). is_valid p \<and> is_dirty p \<longrightarrow> addressable (fs_disk s) (block_num p)"
  proof -
    from adr have "\<forall>i \<in> set [0..<length (pages s)]. i < length (pages s) \<and>
             (is_valid (pages s ! i) \<and> is_dirty (pages s ! i)
                \<longrightarrow> addressable (fs_disk s) (block_num (pages s ! i)))"
      by simp
    from flush_all_loop_returns [OF this] loop show ?thesis by simp
  qed
  from run again clean returns show ?thesis by simp
qed

lemma upt_16: "[0..<16] = [0, 1, 2, 3, 4, 5, 6, 7, 8, 9, 10, 11, 12, 13, 14, 15]"
  by (simp add: upt_rec)

lemma one_dirty_pages:
  "fs_disk one_dirty = fresh_disk \<and>
   pages one_dirty =
     (new_page 0)\<lparr>block_num := 35, page_filename := [102],
        data := ljust BLOCK_SIZE 0 [1, 2, 3], is_valid := True, is_dirty := True,
        owner_pid := 7, access_time := 0, load_time := 0, access_count := 1\<rparr>
     # map new_page [1, 2, 3, 4, 5, 6, 7, 8, 9, 10, 11, 12, 13, 14, 15]"
  by (simp add: one_dirty_def BufferManager_write_block_def load_block_def
      BufferManager_init_def find_free_page_def new_page_def upt_16
      VirtualDisk_read_block_def seek_def fresh_disk_def update_lru_def Let_def)

theorem flush_all_twice_witness:
  "is_dirty (pages one_dirty ! 0) \<and>
   list_all (\<lambda>p. is_dirty p \<longrightarrow> is_valid p) (pages one_dirty) \<and>
   list_all (\<lambda>p. is_valid p \<and> is_dirty p \<longrightarrow> addressable (fs_disk one_dirty) (block_num p))
     (pages one_dirty) \<and>
   fst (flush_all one_dirty) = Inr () \<and>
   list_all (\<lambda>p. \<not> is_dirty p) (pages (snd (flush_all one_dirty))) \<and>
   flush_all (snd (flush_all one_dirty)) = (Inr (), snd (flush_all one_dirty))"
proof -
  have d: "is_dirty (pages one_dirty ! 0)"
    by (simp add: one_dirty_pages)
  have a: "\<forall>p \<in> set (pages one_dirty). is_dirty p \<longrightarrow> is_valid p"
    by (simp add: one_dirty_pages new_page_def)
  have b: "\<forall>p \<in> set (pages one_dirty).
             is_valid p \<and> is_dirty p \<longrightarrow> addressable (fs_disk one_dirty) (block_num p)"
    by (simp add: one_dirty_pages new_page_def addressable_def fresh_disk_def)
  from d a b flush_all_twice [of one_dirty]
  show ?thesis unfolding list_all_iff by (simp add: prod_eq_iff)
qed

subsection \<open>Buffer cache: the page invariant\<close>

lemma pages_ok_nth:
  "pages_ok s \<longleftrightarrow>
     (\<forall>i. i < length (pages s) \<longrightarrow> (is_valid (pages s ! i) \<longrightarrow> 0 \<le> block_num (pages s ! i))
                            \<and> (is_dirty (pages s ! i) \<longrightarrow> is_valid (pages s ! i)))"
  unfolding pages_ok_def by (rule all_set_conv_all_nth)

lemma buffer_inv_fields [simp]:
  "buffer_inv (s\<lparr>hit_count := h\<rparr>) = buffer_inv s"
  "buffer_inv (s\<lparr>miss_count := m\<rparr>) = buffer_inv s"
  "buffer_inv (s\<lparr>writeback_count := w\<rparr>) = buffer_inv s"
  "buffer_inv (s\<lparr>fs_disk := d\<rparr>) = buffer_inv s"
  by (simp_all add: buffer_inv_def unique_mapping_def pages_ok_def lru_ok_def)

lemma buffer_inv_init: "buffer_inv (BufferManager_init d n)"
  by (simp add: buffer_inv_def unique_mapping_def pages_ok_def lru_ok_def BufferManager_init_def
      new_page_def)

text \<open>The invariant depends on the pages and the recency list only.\<close>

lemma buffer_inv_cong:
  "pages s' = pages s \<Longrightarrow> lru_order s' = lru_order s \<Longrightarrow> buffer_inv s' = buffer_inv s"
  by (simp add: buffer_inv_def unique_mapping_def pages_ok_def lru_ok_def)

lemma buffer_inv_update:
  assumes inv: "buffer_inv s" and i: "i < length (pages s)"
    and pg: "pages s' = (pages s)[i := p']"
    and lru: "distinct (lru_order s')"
       "set (lru_order s') = (if is_valid p' then insert i (set (lru_order s)) else set (lru_order s) - {i})"
    and ok: "is_valid p' \<longrightarrow> 0 \<le> block_num p'" "is_dirty p' \<longrightarrow> is_valid p'"
    and fresh: "\<And>j. j < length (pages s) \<Longrightarrow> j \<noteq> i \<Longrightarrow> is_valid (pages s ! j) \<Longrightarrow> is_valid p' \<Longrightarrow>
                  page_filename (pages s ! j) = page_filename p' \<Longrightarrow> block_num (pages s ! j) = block_num p' \<Longrightarrow> False"
  shows "buffer_inv s'"
proof -
  from inv have u0: "unique_mapping s" and p0: "pages_ok s" and l0: "lru_ok s"
    by (simp_all add: buffer_inv_def)
  have nth: "pages s' ! j = (if j = i then p' else pages s ! j)" if "j < length (pages s)" for j
    using that i by (simp add: pg nth_list_update)
  have len: "length (pages s') = length (pages s)" by (simp add: pg)
  have u: "unique_mapping s'"
    unfolding unique_mapping_def len
  proof (intro allI impI)
    fix a b
    assume a: "a < length (pages s)" and b: "b < length (pages s)"
      and h: "is_valid (pages s' ! a) \<and> is_valid (pages s' ! b) \<and>
              page_filename (pages s' ! a) = page_filename (pages s' ! b) \<and>
              block_num (pages s' ! a) = block_num (pages s' ! b)"
    show "a = b"
    proof (cases "a = i")
      case ai: True
      show ?thesis
      proof (cases "b = i")
        case True with ai show ?thesis by simp
      next
        case False
        with ai h a b nth fresh [of b] show ?thesis by auto
      qed
    next
      case ai: False
      show ?thesis
      proof (cases "b = i")
        case True
        with ai h a b nth fresh [of a] show ?thesis by auto
      next
        case False
        with ai h a b nth have "is_valid (pages s ! a) \<and> is_valid (pages s ! b) \<and>
              page_filename (pages s ! a) = page_filename (pages s ! b) \<and>
              block_num (pages s ! a) = block_num (pages s ! b)" by simp
        with u0 a b show ?thesis unfolding unique_mapping_def by blast
      qed
    qed
  qed
  have p: "pages_ok s'"
    unfolding pages_ok_nth len
  proof (intro allI impI)
    fix j assume j: "j < length (pages s)"
    from p0 j have "(is_valid (pages s ! j) \<longrightarrow> 0 \<le> block_num (pages s ! j))
                            \<and> (is_dirty (pages s ! j) \<longrightarrow> is_valid (pages s ! j))"
      unfolding pages_ok_nth by blast
    with ok nth [OF j] show "(is_valid (pages s' ! j) \<longrightarrow> 0 \<le> block_num (pages s' ! j))
                            \<and> (is_dirty (pages s' ! j) \<longrightarrow> is_valid (pages s' ! j))"
      by (cases "j = i") simp_all
  qed
  have "set (lru_order s') = {j. j < length (pages s') \<and> is_valid (pages s' ! j)}"
  proof (rule set_eqI)
    fix j
    from l0 have old: "j \<in> set (lru_order s) \<longleftrightarrow> j < length (pages s) \<and> is_valid (pages s ! j)"
      by (simp add: lru_ok_def)
    show "j \<in> set (lru_order s') \<longleftrightarrow> j \<in> {j. j < length (pages s') \<and> is_valid (pages s' ! j)}"
    proof (cases "j = i")
      case True
      with i lru(2) nth [OF i] len show ?thesis by simp
    next
      case False
      with lru(2) old len nth [of j] show ?thesis by (cases "j < length (pages s)") auto
    qed
  qed
  with lru(1) have l: "lru_ok s'" by (simp add: lru_ok_def)
  from u p l show ?thesis by (simp add: buffer_inv_def)
qed

lemma lru_after_update:
  "distinct (lru_order s) \<Longrightarrow> distinct (lru_order (update_lru s i))"
  "set (lru_order (update_lru s i)) = insert i (set (lru_order s))"
  "pages (update_lru s i) = pages s"
  by (auto simp add: update_lru_def distinct_removeAll)

lemma lru_after_remove:
  "distinct (lru_order s) \<Longrightarrow> distinct (lru_order (remove_from_lru s i))"
  "set (lru_order (remove_from_lru s i)) = set (lru_order s) - {i}"
  "pages (remove_from_lru s i) = pages s"
  by (auto simp add: remove_from_lru_def distinct_removeAll)

lemma evict_page_inv:
  assumes run: "evict_page s i = (r, s')" and inv: "buffer_inv s"
  shows "buffer_inv s' \<and> length (pages s') = length (pages s) \<and>
         (\<forall>j. j \<noteq> i \<longrightarrow> pages s' ! j = pages s ! j) \<and>
         (\<forall>x. r = Inr x \<longrightarrow> i < length (pages s) \<and> \<not> is_valid (pages s' ! i))"
proof (cases "length (pages s) \<le> i")
  case True
  with run inv show ?thesis by (auto simp add: evict_page_def)
next
  case i: False
  show ?thesis
  proof (cases "is_valid (pages s ! i)")
    case False
    with i run inv show ?thesis by (auto simp add: evict_page_def Let_def)
  next
    case v: True
    define p' where "p' = (pages s ! i)\<lparr>is_valid := False, is_dirty := False,
                       block_num := -1, page_filename := [], owner_pid := -1,
                       data := replicate BLOCK_SIZE 0\<rparr>"
    have upd: "buffer_inv (remove_from_lru (s1\<lparr>pages := (pages s1)[i := p']\<rparr>) i)"
      if "buffer_inv s1" "pages s1 = pages s" for s1
    proof (rule buffer_inv_update [OF that(1), of i _ p'])
      from that i show "i < length (pages s1)" by simp
      show "pages (remove_from_lru (s1\<lparr>pages := (pages s1)[i := p']\<rparr>) i) = (pages s1)[i := p']"
        by (simp add: lru_after_remove)
      from that(1) have "distinct (lru_order s1)" by (simp add: buffer_inv_def lru_ok_def)
      then show "distinct (lru_order (remove_from_lru (s1\<lparr>pages := (pages s1)[i := p']\<rparr>) i))"
        by (simp add: lru_after_remove)
      show "set (lru_order (remove_from_lru (s1\<lparr>pages := (pages s1)[i := p']\<rparr>) i)) =
            (if is_valid p' then insert i (set (lru_order s1)) else set (lru_order s1) - {i})"
        by (simp add: lru_after_remove p'_def)
    qed (simp_all add: p'_def)
    show ?thesis
    proof (cases "is_dirty (pages s ! i)")
      case False
      with i v run have s': "s' = remove_from_lru (s\<lparr>pages := (pages s)[i := p']\<rparr>) i" and r: "r = Inr True"
        by (simp_all add: evict_page_def Let_def p'_def)
      from upd [OF inv refl] i show ?thesis
        by (simp add: s' r lru_after_remove p'_def)
    next
      case d: True
      show ?thesis
      proof (cases "VirtualDisk_write_block (fs_disk s) (block_num (pages s ! i)) (data (pages s ! i))")
        case (Inl e)
        with i v d run inv show ?thesis by (auto simp add: evict_page_def Let_def)
      next
        case (Inr d')
        let ?s1 = "s\<lparr>fs_disk := d', writeback_count := writeback_count s + 1\<rparr>"
        from Inr i v d run have s': "s' = remove_from_lru (?s1\<lparr>pages := (pages ?s1)[i := p']\<rparr>) i"
          and r: "r = Inr True"
          by (simp_all add: evict_page_def Let_def p'_def)
        from inv have "buffer_inv ?s1" by simp
        from upd [OF this] i show ?thesis
          by (simp add: s' r lru_after_remove p'_def)
      qed
    qed
  qed
qed

lemma load_tail_inv:
  assumes inv: "buffer_inv s2" and i: "i < length (pages s2)"
    and nohit: "\<forall>j < length (pages s2). j \<noteq> i \<longrightarrow>
        \<not> (is_valid (pages s2 ! j) \<and> block_num (pages s2 ! j) = b \<and> page_filename (pages s2 ! j) = f)"
    and b: "0 \<le> b"
    and p': "is_valid p'" "block_num p' = b" "page_filename p' = f"
  shows "buffer_inv (update_lru (s2\<lparr>pages := (pages s2)[i := p']\<rparr>) i)"
proof (rule buffer_inv_update [OF inv i, of _ p'])
  show "pages (update_lru (s2\<lparr>pages := (pages s2)[i := p']\<rparr>) i) = (pages s2)[i := p']"
    by (simp add: lru_after_update)
  from inv have "distinct (lru_order s2)" by (simp add: buffer_inv_def lru_ok_def)
  then show "distinct (lru_order (update_lru (s2\<lparr>pages := (pages s2)[i := p']\<rparr>) i))"
    by (simp add: lru_after_update)
  show "set (lru_order (update_lru (s2\<lparr>pages := (pages s2)[i := p']\<rparr>) i)) =
        (if is_valid p' then insert i (set (lru_order s2)) else set (lru_order s2) - {i})"
    by (simp add: lru_after_update p')
  show "is_valid p' \<longrightarrow> 0 \<le> block_num p'" using b p' by simp
  show "is_dirty p' \<longrightarrow> is_valid p'" using p' by simp
  fix j assume "j < length (pages s2)" "j \<noteq> i" "is_valid (pages s2 ! j)"
    "page_filename (pages s2 ! j) = page_filename p'" "block_num (pages s2 ! j) = block_num p'"
  with nohit p' show False by auto
qed

lemma load_block_inv:
  assumes run: "load_block s now f b pid = (r, s')" and inv: "buffer_inv s"
  shows "buffer_inv s'"
proof (cases "find (\<lambda>i. is_valid (pages s ! i) \<and> block_num (pages s ! i) = b
                      \<and> page_filename (pages s ! i) = f) [0..<length (pages s)]")
  case (Some i)
  then have i: "i < length (pages s)" and v: "is_valid (pages s ! i)"
    and k: "block_num (pages s ! i) = b" "page_filename (pages s ! i) = f"
    by (auto simp add: find_Some_iff)
  let ?p = "(pages s ! i)\<lparr>access_time := now, access_count := access_count (pages s ! i) + 1\<rparr>"
  let ?s0 = "s\<lparr>hit_count := hit_count s + 1\<rparr>"
  from run Some have s': "s' = update_lru (?s0\<lparr>pages := (pages ?s0)[i := ?p]\<rparr>) i"
    by (simp add: load_block_def Let_def)
  from inv have inv0: "buffer_inv ?s0" by simp
  have nohit: "\<forall>j < length (pages ?s0). j \<noteq> i \<longrightarrow>
        \<not> (is_valid (pages ?s0 ! j) \<and> block_num (pages ?s0 ! j) = b \<and> page_filename (pages ?s0 ! j) = f)"
  proof (intro allI impI)
    fix j assume j: "j < length (pages ?s0)" "j \<noteq> i"
    from inv have "unique_mapping s" by (simp add: buffer_inv_def)
    with i v k j show "\<not> (is_valid (pages ?s0 ! j) \<and> block_num (pages ?s0 ! j) = b \<and> page_filename (pages ?s0 ! j) = f)"
      unfolding unique_mapping_def by auto
  qed
  from inv v i k have b: "0 \<le> b" by (auto simp add: buffer_inv_def pages_ok_nth)
  show ?thesis unfolding s'
    by (rule load_tail_inv [OF inv0 _ nohit b]) (use i v k in simp_all)
next
  case None
  then have nohit: "\<forall>j < length (pages s). 
        \<not> (is_valid (pages s ! j) \<and> block_num (pages s ! j) = b \<and> page_filename (pages s ! j) = f)"
    by (auto simp add: find_None_iff)
  let ?s1 = "s\<lparr>miss_count := miss_count s + 1\<rparr>"
  from inv have inv1: "buffer_inv ?s1" by simp
  have tail: "buffer_inv s'"
    if inv2: "buffer_inv s2" and i: "i < length (pages s2)"
      and nohit2: "\<forall>j < length (pages s2). j \<noteq> i \<longrightarrow>
        \<not> (is_valid (pages s2 ! j) \<and> block_num (pages s2 ! j) = b \<and> page_filename (pages s2 ! j) = f)"
      and resl: "\<And>e. VirtualDisk_read_block (fs_disk s2) b = Inl e \<Longrightarrow> s' = s2"
      and resr: "\<And>dat. VirtualDisk_read_block (fs_disk s2) b = Inr dat \<Longrightarrow>
                   s' = update_lru
                          (s2\<lparr>pages := (pages s2)[i := (pages s2 ! i)\<lparr>block_num := b,
                               page_filename := f, data := dat, is_valid := True,
                               is_dirty := False, owner_pid := pid, access_time := now,
                               load_time := now, access_count := 1\<rparr>]\<rparr>) i"
    for s2 i
  proof (cases "VirtualDisk_read_block (fs_disk s2) b")
    case (Inl e)
    with resl inv2 show ?thesis by simp
  next
    case (Inr dat)
    from read_block_Inr_nonneg [OF Inr] have b: "0 \<le> b" .
    show ?thesis unfolding resr [OF Inr]
      by (rule load_tail_inv [OF inv2 i nohit2 b]) simp_all
  qed
  show ?thesis
  proof (cases "find_free_page ?s1")
    case (Some i)
    then have i: "i < length (pages ?s1)"
      by (auto simp add: find_free_page_def find_Some_iff)
    show ?thesis
      by (rule tail [OF inv1 i]) (use i nohit run None Some in \<open>auto simp add: load_block_def Let_def\<close>)
  next
    case nofree: None
    show ?thesis
    proof (cases "find_lru_page ?s1")
      case None
      with run \<open>find _ _ = None\<close> nofree have "s' = ?s1"
        by (simp add: load_block_def Let_def)
      with inv1 show ?thesis by simp
    next
      case (Some i)
      obtain r2 s2 where ev: "evict_page ?s1 i = (r2, s2)" by (cases "evict_page ?s1 i")
      from evict_page_inv [OF ev inv1]
      have inv2: "buffer_inv s2" and len: "length (pages s2) = length (pages s)"
        and same: "\<forall>j. j \<noteq> i \<longrightarrow> pages s2 ! j = pages s ! j"
        and ok: "\<forall>x. r2 = Inr x \<longrightarrow> i < length (pages s) \<and> \<not> is_valid (pages s2 ! i)"
        by simp_all
      show ?thesis
      proof (cases r2)
        case (Inl e)
        with run \<open>find _ _ = None\<close> nofree Some ev have "s' = s2"
          by (simp add: load_block_def Let_def)
        with inv2 show ?thesis by simp
      next
        case (Inr x)
        with ok len have i: "i < length (pages s2)" by simp
        show ?thesis
          by (rule tail [OF inv2 i])
             (use i nohit same len run \<open>find _ _ = None\<close> nofree Some ev Inr in
               \<open>auto simp add: load_block_def Let_def\<close>)
      qed
    qed
  qed
qed

lemma load_block_page:
  assumes run: "load_block s now f b pid = (Inr (Some i, dat), s')"
  shows "i < length (pages s') \<and> is_valid (pages s' ! i)"
proof (cases "find (\<lambda>i. is_valid (pages s ! i) \<and> block_num (pages s ! i) = b
                      \<and> page_filename (pages s ! i) = f) [0..<length (pages s)]")
  case (Some k)
  then have k: "k < length (pages s)" "is_valid (pages s ! k)"
    by (auto simp add: find_Some_iff)
  from run Some have "i = k" "s' = update_lru (s\<lparr>hit_count := hit_count s + 1,
      pages := (pages s)[k := (pages s ! k)\<lparr>access_time := now,
                                    access_count := access_count (pages s ! k) + 1\<rparr>]\<rparr>) k"
    by (auto simp add: load_block_def Let_def)
  with k show ?thesis by (simp add: lru_after_update)
next
  case None
  from run None show ?thesis
    by (auto simp add: load_block_def Let_def lru_after_update
        split: option.splits sum.splits prod.splits if_splits)
qed

lemma write_block_inv:
  assumes run: "BufferManager_write_block s now f b dat pid = (r, s')" and inv: "buffer_inv s"
  shows "buffer_inv s'"
proof -
  obtain r1 s1 where ld: "load_block s now f b pid = (r1, s1)" by (cases "load_block s now f b pid")
  from load_block_inv [OF ld inv] have inv1: "buffer_inv s1" .
  show ?thesis
  proof (cases r1)
    case (Inl e)
    with run ld inv1 show ?thesis by (simp add: BufferManager_write_block_def)
  next
    case (Inr x)
    obtain oi d0 where x: "x = (oi, d0)" by (cases x)
    show ?thesis
    proof (cases oi)
      case None
      with run ld Inr x inv1 show ?thesis by (simp add: BufferManager_write_block_def)
    next
      case (Some i)
      from load_block_page [of s now f b pid i d0 s1] ld Inr x Some
      have i: "i < length (pages s1)" and v: "is_valid (pages s1 ! i)" by simp_all
      let ?p = "(pages s1 ! i)\<lparr>data := ljust BLOCK_SIZE 0 (take BLOCK_SIZE dat),
                 is_dirty := True, access_time := now\<rparr>"
      from run ld Inr x Some have s': "s' = s1\<lparr>pages := (pages s1)[i := ?p]\<rparr>"
        by (simp add: BufferManager_write_block_def)
      from inv1 have l1: "lru_ok s1" and p1: "pages_ok s1" and u1: "unique_mapping s1"
        by (simp_all add: buffer_inv_def)
      show ?thesis
      proof (rule buffer_inv_update [OF inv1 i, of s' ?p])
        show "pages s' = (pages s1)[i := ?p]" by (simp add: s')
        from l1 show "distinct (lru_order s')" by (simp add: s' lru_ok_def)
        from l1 i v show "set (lru_order s') =
            (if is_valid ?p then insert i (set (lru_order s1)) else set (lru_order s1) - {i})"
          by (auto simp add: s' lru_ok_def)
        from p1 i v show "is_valid ?p \<longrightarrow> 0 \<le> block_num ?p" by (simp add: pages_ok_nth)
        from v show "is_dirty ?p \<longrightarrow> is_valid ?p" by simp
        fix j assume "j < length (pages s1)" "j \<noteq> i" "is_valid (pages s1 ! j)"
          "page_filename (pages s1 ! j) = page_filename ?p" "block_num (pages s1 ! j) = block_num ?p"
        with u1 i v show False unfolding unique_mapping_def by auto
      qed
    qed
  qed
qed

lemma buffer_inv_clean:
  assumes inv: "buffer_inv s" and i: "i < length (pages s)" and v: "is_valid (pages s ! i)"
  shows "buffer_inv (s\<lparr>fs_disk := d', pages := (pages s)[i := (pages s ! i)\<lparr>is_dirty := False\<rparr>],
                  writeback_count := w\<rparr>)"
proof -
  let ?p = "(pages s ! i)\<lparr>is_dirty := False\<rparr>"
  from inv have l1: "lru_ok s" and p1: "pages_ok s" and u1: "unique_mapping s"
    by (simp_all add: buffer_inv_def)
  show ?thesis
  proof (rule buffer_inv_update [OF inv i, of _ ?p])
    from l1 i v show "set (lru_order (s\<lparr>fs_disk := d', pages := (pages s)[i := ?p], writeback_count := w\<rparr>)) =
            (if is_valid ?p then insert i (set (lru_order s)) else set (lru_order s) - {i})"
      by (auto simp add: lru_ok_def)
    from l1 show "distinct (lru_order (s\<lparr>fs_disk := d', pages := (pages s)[i := ?p], writeback_count := w\<rparr>))"
      by (simp add: lru_ok_def)
    from p1 i v show "is_valid ?p \<longrightarrow> 0 \<le> block_num ?p" by (simp add: pages_ok_nth)
    fix j assume "j < length (pages s)" "j \<noteq> i" "is_valid (pages s ! j)"
      "page_filename (pages s ! j) = page_filename ?p" "block_num (pages s ! j) = block_num ?p"
    with u1 i v show False unfolding unique_mapping_def by auto
  qed simp_all
qed

lemma flush_all_loop_inv:
  "buffer_inv s \<Longrightarrow> \<forall>i \<in> set ids. i < length (pages s) \<Longrightarrow> buffer_inv (snd (flush_all_loop ids s))"
proof (induction ids arbitrary: s)
  case Nil
  then show ?case by simp
next
  case (Cons i ids)
  from Cons.prems have ids: "\<forall>i \<in> set ids. i < length (pages s)" and i: "i < length (pages s)"
    by simp_all
  show ?case
  proof (cases "is_valid (pages s ! i) \<and> is_dirty (pages s ! i)")
    case False
    with Cons.IH [OF Cons.prems(1) ids] show ?thesis by (auto simp add: Let_def)
  next
    case True
    show ?thesis
    proof (cases "VirtualDisk_write_block (fs_disk s) (block_num (pages s ! i)) (data (pages s ! i))")
      case (Inl e)
      with True Cons.prems show ?thesis by (simp add: Let_def)
    next
      case (Inr d')
      let ?s' = "s\<lparr>fs_disk := d', pages := (pages s)[i := (pages s ! i)\<lparr>is_dirty := False\<rparr>],
                  writeback_count := writeback_count s + 1\<rparr>"
      from True have "buffer_inv ?s'" by (intro buffer_inv_clean [OF Cons.prems(1) i]) simp
      moreover have "\<forall>i \<in> set ids. i < length (pages ?s')" using ids by simp
      ultimately have "buffer_inv (snd (flush_all_loop ids ?s'))" by (rule Cons.IH)
      with True Inr show ?thesis by (simp add: Let_def)
    qed
  qed
qed

lemma flush_file_loop_inv:
  "buffer_inv s \<Longrightarrow> \<forall>i \<in> set ids. i < length (pages s) \<Longrightarrow> buffer_inv (snd (flush_file_loop f ids s))"
proof (induction ids arbitrary: s)
  case Nil
  then show ?case by simp
next
  case (Cons i ids)
  from Cons.prems have ids: "\<forall>i \<in> set ids. i < length (pages s)" and i: "i < length (pages s)"
    by simp_all
  show ?case
  proof (cases "is_valid (pages s ! i) \<and> is_dirty (pages s ! i) \<and> page_filename (pages s ! i) = f")
    case False
    with Cons.IH [OF Cons.prems(1) ids] show ?thesis by (auto simp add: Let_def)
  next
    case True
    show ?thesis
    proof (cases "VirtualDisk_write_block (fs_disk s) (block_num (pages s ! i)) (data (pages s ! i))")
      case (Inl e)
      with True Cons.prems show ?thesis by (simp add: Let_def)
    next
      case (Inr d')
      let ?s' = "s\<lparr>fs_disk := d', pages := (pages s)[i := (pages s ! i)\<lparr>is_dirty := False\<rparr>],
                  writeback_count := writeback_count s + 1\<rparr>"
      from True have "buffer_inv ?s'" by (intro buffer_inv_clean [OF Cons.prems(1) i]) simp
      moreover have "\<forall>i \<in> set ids. i < length (pages ?s')" using ids by simp
      ultimately have "buffer_inv (snd (flush_file_loop f ids ?s'))" by (rule Cons.IH)
      with True Inr show ?thesis by (simp add: Let_def)
    qed
  qed
qed

lemma buffer_inv_invalidate:
  assumes inv: "buffer_inv s1" and i: "i < length (pages s1)"
  shows "buffer_inv (remove_from_lru
                  (s1\<lparr>pages := (pages s1)[i := p\<lparr>is_valid := False, is_dirty := False\<rparr>]\<rparr>) i)"
    (is "buffer_inv ?s'")
proof (rule buffer_inv_update [OF inv i, of _ "p\<lparr>is_valid := False, is_dirty := False\<rparr>"])
  show "pages ?s' = (pages s1)[i := p\<lparr>is_valid := False, is_dirty := False\<rparr>]"
    by (simp add: lru_after_remove)
  from inv have "distinct (lru_order s1)" by (simp add: buffer_inv_def lru_ok_def)
  then show "distinct (lru_order ?s')" by (simp add: lru_after_remove)
  show "set (lru_order ?s') =
        (if is_valid (p\<lparr>is_valid := False, is_dirty := False\<rparr>) then insert i (set (lru_order s1))
         else set (lru_order s1) - {i})"
    by (simp add: lru_after_remove)
qed simp_all

lemma invalidate_file_loop_inv:
  "buffer_inv s \<Longrightarrow> \<forall>i \<in> set ids. i < length (pages s) \<Longrightarrow>
     buffer_inv (snd (invalidate_file_loop f ids s))"
proof (induction ids arbitrary: s)
  case Nil
  then show ?case by simp
next
  case (Cons i ids)
  from Cons.prems have ids: "\<forall>i \<in> set ids. i < length (pages s)" and i: "i < length (pages s)"
    by simp_all
  show ?case
  proof (cases "is_valid (pages s ! i) \<and> page_filename (pages s ! i) = f")
    case False
    with Cons.IH [OF Cons.prems(1) ids] show ?thesis by (auto simp add: Let_def)
  next
    case True
    have step: "buffer_inv (snd (invalidate_file_loop f ids (remove_from_lru
                  (s1\<lparr>pages := (pages s1)[i := (pages s ! i)\<lparr>is_valid := False, is_dirty := False\<rparr>]\<rparr>) i)))"
      if "buffer_inv s1" "pages s1 = pages s" for s1
    proof -
      from that i have a: "buffer_inv (remove_from_lru
                  (s1\<lparr>pages := (pages s1)[i := (pages s ! i)\<lparr>is_valid := False, is_dirty := False\<rparr>]\<rparr>) i)"
        by (intro buffer_inv_invalidate) simp_all
      from that ids have b: "\<forall>k \<in> set ids. k < length (pages (remove_from_lru
                  (s1\<lparr>pages := (pages s1)[i := (pages s ! i)\<lparr>is_valid := False, is_dirty := False\<rparr>]\<rparr>) i))"
        by (simp add: lru_after_remove)
      show ?thesis by (rule Cons.IH [OF a b])
    qed
    show ?thesis
    proof (cases "is_dirty (pages s ! i)")
      case False
      with True step [OF Cons.prems(1) refl] show ?thesis by (simp add: Let_def)
    next
      case d: True
      show ?thesis
      proof (cases "VirtualDisk_write_block (fs_disk s) (block_num (pages s ! i)) (data (pages s ! i))")
        case (Inl e)
        with True d Cons.prems show ?thesis by (simp add: Let_def)
      next
        case (Inr d')
        from Cons.prems(1) have "buffer_inv (s\<lparr>fs_disk := d', writeback_count := writeback_count s + 1\<rparr>)"
          by simp
        from step [OF this] True d Inr show ?thesis by (simp add: Let_def)
      qed
    qed
  qed
qed

lemma run_op_inv: "buffer_inv s \<Longrightarrow> buffer_inv (run_op s op)"
proof (cases op)
  case (Load now f b pid)
  assume "buffer_inv s"
  with load_block_inv [of s now f b pid] Load show ?thesis
    by (cases "load_block s now f b pid") simp
next
  case (Write now f b dat pid)
  assume "buffer_inv s"
  with write_block_inv [of s now f b dat pid] Write show ?thesis
    by (cases "BufferManager_write_block s now f b dat pid") simp
next
  case FlushAll
  assume "buffer_inv s"
  with flush_all_loop_inv [of s "[0..<length (pages s)]"] FlushAll show ?thesis
    by (simp add: flush_all_def)
next
  case (FlushFile f)
  assume "buffer_inv s"
  with flush_file_loop_inv [of s "[0..<length (pages s)]" f] FlushFile show ?thesis
    by (simp add: flush_file_def)
next
  case (InvalidateFile f)
  assume "buffer_inv s"
  with invalidate_file_loop_inv [of s "[0..<length (pages s)]" f] InvalidateFile show ?thesis
    by (simp add: invalidate_file_def)
qed

lemma reachable_inv: "reachable s \<Longrightarrow> buffer_inv s"
  by (induction rule: reachable.induct) (simp_all add: buffer_inv_init run_op_inv)

text \<open>
  C6. In every state the buffer manager reaches from its initial state by \<open>load_block\<close>,
  \<open>write_block\<close>, \<open>flush_all\<close>, \<open>flush_file\<close> and \<open>invalidate_file\<close> (also when one of
  them raises), no two valid pages hold the same (filename, block number) pair, and a page
  is either invalid or caches one block of the disk: its block number is not negative,
  and an invalid page is never dirty.
\<close>

theorem reachable_unique_mapping:
  "reachable s \<Longrightarrow> unique_mapping s \<and> pages_ok s"
  using reachable_inv [of s] by (simp add: buffer_inv_def)

theorem reachable_unique_mapping_witness:
  "reachable (run_op (BufferManager_init fresh_disk BUFFER_SIZE) (Load 0 [102] 35 7)) \<and>
   unique_mapping (run_op (BufferManager_init fresh_disk BUFFER_SIZE) (Load 0 [102] 35 7)) \<and>
   pages_ok (run_op (BufferManager_init fresh_disk BUFFER_SIZE) (Load 0 [102] 35 7))"
proof -
  have r: "reachable (run_op (BufferManager_init fresh_disk BUFFER_SIZE) (Load 0 [102] 35 7))"
    by (rule reachable.step [OF reachable.init])
  with reachable_unique_mapping [OF r] show ?thesis by simp
qed

subsection \<open>Buffer cache: least-recently-used eviction\<close>

lemma load_block_free:
  assumes nohit: "\<forall>j < length (pages s).
        \<not> (is_valid (pages s ! j) \<and> block_num (pages s ! j) = b \<and> page_filename (pages s ! j) = f)"
    and k: "k < length (pages s)" "\<not> is_valid (pages s ! k)" "\<forall>j < k. is_valid (pages s ! j)"
    and b: "addressable (fs_disk s) b"
  shows "load_block s now f b pid =
     (Inr (Some k, take BLOCK_SIZE (drop (nat b * BLOCK_SIZE) (file_bytes (fs_disk s)))),
      update_lru (s\<lparr>miss_count := miss_count s + 1,
          pages := (pages s)[k := (pages s ! k)\<lparr>block_num := b,
                               page_filename := f,
                               data := take BLOCK_SIZE (drop (nat b * BLOCK_SIZE) (file_bytes (fs_disk s))),
                               is_valid := True,
                               is_dirty := False, owner_pid := pid, access_time := now,
                               load_time := now, access_count := 1\<rparr>]\<rparr>) k)"
proof -
  have h: "find (\<lambda>i. is_valid (pages s ! i) \<and> block_num (pages s ! i) = b
                      \<and> page_filename (pages s ! i) = f) [0..<length (pages s)] = None"
    using nohit by (auto simp add: find_None_iff)
  have fr: "find_free_page (s\<lparr>miss_count := m\<rparr>) = Some k" for m
    using k by (auto simp add: find_free_page_def find_Some_iff intro!: exI [of _ k])
  show ?thesis
    using k(1) by (simp add: load_block_def h fr Let_def read_block_addressable [OF b])
qed

lemma filled_pages_length: "length reqs \<le> n \<Longrightarrow> length (pages (filled d n reqs)) = n"
  by (simp add: filled_def)

lemma filled_pages_nth:
  "length reqs \<le> n \<Longrightarrow> j < n \<Longrightarrow>
   pages (filled d n reqs) ! j =
     (if j < length reqs then cached_page d j (reqs ! j) else new_page j)"
  by (simp add: filled_def nth_append)

lemma cached_page_fields [simp]:
  "is_valid (cached_page d i r)"
  "block_num (cached_page d i r) = snd (access_key r)"
  "page_filename (cached_page d i r) = fst (access_key r)"
  "is_dirty (cached_page d i r) = (access_data r \<noteq> None)"
  by (cases r; simp)+

lemma filled_snoc_eq:
  assumes k: "length reqs < n"
    and len: "length (pages s') = n"
    and others: "\<And>j. j < n \<Longrightarrow> j \<noteq> length reqs \<Longrightarrow> pages s' ! j = pages (filled d n reqs) ! j"
    and new: "pages s' ! length reqs = cached_page d (length reqs) r"
    and rest: "lru_order s' = [0..<Suc (length reqs)]" "fs_disk s' = d" "buffer_size s' = n"
      "hit_count s' = 0" "miss_count s' = Suc (length reqs)" "writeback_count s' = 0"
  shows "s' = filled d n (reqs @ [r])"
proof -
  have "pages s' = pages (filled d n (reqs @ [r]))"
  proof (rule nth_equalityI)
    from k len show "length (pages s') = length (pages (filled d n (reqs @ [r])))"
      by (simp add: filled_pages_length)
    fix j assume "j < length (pages s')"
    with len have j: "j < n" by simp
    show "pages s' ! j = pages (filled d n (reqs @ [r])) ! j"
    proof (cases "j = length reqs")
      case True
      with k j new show ?thesis by (simp add: filled_pages_nth)
    next
      case False
      with k j others [OF j False] show ?thesis
        by (simp add: filled_pages_nth nth_append)
    qed
  qed
  with rest show ?thesis by (simp add: filled_def)
qed

lemma filled_step:
  assumes k: "length reqs < n"
    and fresh: "access_key r \<notin> set (map access_key reqs)"
    and b: "addressable d (snd (access_key r))"
  shows "run_op (filled d n reqs) (access_op r) = filled d n (reqs @ [r])"
proof -
  obtain now pid f bn w where r: "r = (now, pid, f, bn, w)" by (cases r)
  let ?s = "filled d n reqs"
  from k have len: "length (pages ?s) = n" by (simp add: filled_pages_length)
  have nohit: "\<forall>j < length (pages ?s).
        \<not> (is_valid (pages ?s ! j) \<and> block_num (pages ?s ! j) = bn \<and> page_filename (pages ?s ! j) = f)"
  proof (intro allI impI)
    fix j assume "j < length (pages ?s)"
    with len have j: "j < n" by simp
    show "\<not> (is_valid (pages ?s ! j) \<and> block_num (pages ?s ! j) = bn \<and> page_filename (pages ?s ! j) = f)"
    proof (cases "j < length reqs")
      case True
      then have "access_key (reqs ! j) \<in> set (map access_key reqs)" by simp
      with fresh r have "access_key (reqs ! j) \<noteq> (f, bn)" by (metis access_key.simps)
      with True j k show ?thesis
        by (auto simp add: filled_pages_nth prod_eq_iff)
    next
      case False
      with j k show ?thesis by (simp add: filled_pages_nth new_page_def)
    qed
  qed
  have k1: "length reqs < length (pages ?s)" using k len by simp
  have k2: "\<not> is_valid (pages ?s ! length reqs)"
    using k by (simp add: filled_pages_nth new_page_def)
  have k3: "\<forall>j < length reqs. is_valid (pages ?s ! j)"
    using k by (simp add: filled_pages_nth)
  from b r have b': "addressable (fs_disk ?s) bn" by (simp add: filled_def)
  note ld = load_block_free [OF nohit k1 k2 k3 b', of now pid]
  have pk: "pages ?s ! length reqs = new_page (length reqs)"
    using k by (simp add: filled_pages_nth)
  have lru: "lru_order ?s = [0..<length reqs]" "fs_disk ?s = d" "buffer_size ?s = n"
    "hit_count ?s = 0" "miss_count ?s = length reqs" "writeback_count ?s = 0"
    by (simp_all add: filled_def)
  show ?thesis
  proof (cases w)
    case None
    show ?thesis
      by (rule filled_snoc_eq [OF k])
         (simp_all add: r None ld update_lru_def lru len k pk new_page_def)
  next
    case (Some dat)
    show ?thesis
      by (rule filled_snoc_eq [OF k])
         (simp_all add: r Some BufferManager_write_block_def ld update_lru_def lru len k pk new_page_def)
  qed
qed

lemma run_ops_filled:
  "length reqs \<le> n \<Longrightarrow> distinct (map access_key reqs) \<Longrightarrow>
   \<forall>r \<in> set reqs. addressable d (snd (access_key r)) \<Longrightarrow>
   run_ops (BufferManager_init d n) (map access_op reqs) = filled d n reqs"
proof (induction reqs rule: rev_induct)
  case Nil
  show ?case by (simp add: run_ops_def filled_def BufferManager_init_def)
next
  case (snoc r reqs)
  from snoc.prems have "run_ops (BufferManager_init d n) (map access_op reqs) = filled d n reqs"
    by (intro snoc.IH) simp_all
  moreover from snoc.prems have "run_op (filled d n reqs) (access_op r) = filled d n (reqs @ [r])"
    by (intro filled_step) simp_all
  ultimately show ?case by (simp add: run_ops_def)
qed

lemma cached_page_reload:
  "(cached_page d i r)\<lparr>block_num := b, page_filename := f, data := x, is_valid := True,
       is_dirty := False, owner_pid := pid', access_time := now', load_time := now',
       access_count := 1\<rparr> =
   \<lparr>page_id = i, block_num = b, page_filename = f, data = x, is_dirty = False, is_valid = True,
    owner_pid = pid', access_time = now', load_time = now', access_count = 1\<rparr>"
  by (cases r) simp

lemma load_block_full:
  assumes len: "length reqs = n" and n: "0 < n"
    and fresh: "(f, b) \<notin> set (map access_key reqs)"
    and b: "addressable d b"
    and wb: "if is_dirty (pages (filled d n reqs) ! 0)
             then VirtualDisk_write_block d (block_num (pages (filled d n reqs) ! 0))
                    (data (pages (filled d n reqs) ! 0)) = Inr d'
             else d' = d"
  shows "load_block (filled d n reqs) now' f b pid' =
     (Inr (Some 0, take BLOCK_SIZE (drop (nat b * BLOCK_SIZE) (file_bytes d'))),
      \<lparr>fs_disk = d', buffer_size = n,
       pages = (pages (filled d n reqs))[0 :=
          \<lparr>page_id = 0, block_num = b, page_filename = f,
           data = take BLOCK_SIZE (drop (nat b * BLOCK_SIZE) (file_bytes d')),
           is_dirty = False, is_valid = True, owner_pid = pid',
           access_time = now', load_time = now', access_count = 1\<rparr>],
       lru_order = [1..<n] @ [0], hit_count = 0, miss_count = Suc n,
       writeback_count = (if is_dirty (pages (filled d n reqs) ! 0) then 1 else 0)\<rparr>)"
proof -
  let ?s = "filled d n reqs"
  from len have plen: "length (pages ?s) = n" by (simp add: filled_pages_length)
  have pg: "pages ?s ! j = cached_page d j (reqs ! j)" if "j < n" for j
    using that len by (simp add: filled_pages_nth)
  have h: "find (\<lambda>i. is_valid (pages ?s ! i) \<and> block_num (pages ?s ! i) = b
                      \<and> page_filename (pages ?s ! i) = f) [0..<n] = None"
  proof -
    have "\<not> (block_num (pages ?s ! j) = b \<and> page_filename (pages ?s ! j) = f)" if j: "j < n" for j
    proof -
      from j len have "access_key (reqs ! j) \<in> set (map access_key reqs)" by simp
      with fresh have "access_key (reqs ! j) \<noteq> (f, b)" by metis
      with j show ?thesis by (auto simp add: pg prod_eq_iff)
    qed
    then show ?thesis by (auto simp add: find_None_iff)
  qed
  have fr: "find_free_page (?s\<lparr>miss_count := m\<rparr>) = None" for m
    by (auto simp add: find_free_page_def find_None_iff plen pg)
  have lru: "lru_order ?s = 0 # [1..<n]"
    using n by (simp add: filled_def len upt_conv_Cons)
  have lp: "find_lru_page (?s\<lparr>miss_count := m\<rparr>) = Some 0" for m
    by (simp add: find_lru_page_def lru)
  have v0: "is_valid (pages ?s ! 0)" using n by (simp add: pg)
  have id0: "page_id (pages ?s ! 0) = 0" using n by (cases "reqs ! 0") (simp add: pg)
  have flds: "fs_disk ?s = d" "buffer_size ?s = n" "hit_count ?s = 0" "miss_count ?s = n"
    "writeback_count ?s = 0"
    by (simp_all add: filled_def len)
  have ev: "evict_page (?s\<lparr>miss_count := m\<rparr>) 0 =
      (Inr True, ?s\<lparr>miss_count := m, fs_disk := d',
          writeback_count := (if is_dirty (pages ?s ! 0) then 1 else 0),
          lru_order := [1..<n],
          pages := (pages ?s)[0 := (pages ?s ! 0)\<lparr>is_valid := False, is_dirty := False,
                       block_num := -1, page_filename := [], owner_pid := -1,
                       data := replicate BLOCK_SIZE 0\<rparr>]\<rparr>)" for m
  proof (cases "is_dirty (pages ?s ! 0)")
    case True
    with wb show ?thesis
      using n by (simp add: evict_page_def plen v0 Let_def flds remove_from_lru_def lru)
  next
    case False
    with wb show ?thesis
      using n by (simp add: evict_page_def plen v0 Let_def remove_from_lru_def lru)
           (simp add: filled_def)
  qed
  have "offset_limit d' = offset_limit d"
    using wb write_block_limit [of d _ _ d'] by (cases "is_dirty (pages ?s ! 0)") auto
  from addressable_limit [OF this] b have b': "addressable d' b" by simp
  show ?thesis
    using n
    by (simp add: load_block_def h fr lp ev Let_def read_block_addressable [OF b'] plen
          update_lru_def id0)
       (use len in \<open>auto simp add: filled_def cached_page_reload\<close>)
qed

text \<open>
  C7. Starting from the empty pool of \<open>n\<close> pages (\<open>BUFFER_SIZE\<close> is 16), after \<open>n\<close>
  accesses, each by its own process at its own clock reading, to pairwise distinct
  (filename, block) pairs whose blocks the disk can hold, every page is valid and page
  \<open>j\<close> caches the \<open>j\<close>-th pair; loading one more distinct pair then reuses page 0, which
  held the first, least recently touched pair: no page holds that pair afterwards, and
  every other page is unchanged. If page 0 was dirty (the first access was a write) its
  data is written to its block and one write-back is counted, and the new block is read
  from the disk as that write-back left it; otherwise disk and counter are unchanged.
\<close>

theorem lru_evicts_first_loaded:
  assumes s: "s = run_ops (BufferManager_init d n) (map access_op reqs)"
    and len: "length reqs = n" and n: "0 < n"
    and dist: "distinct (map access_key reqs)" "(f, b) \<notin> set (map access_key reqs)"
    and adr: "\<forall>r \<in> set reqs. addressable d (snd (access_key r))" and b: "addressable d b"
  shows "\<exists>dat s'.
     load_block s now' f b pid' = (Inr (Some 0, dat), s') \<and>
     (\<forall>j < n. is_valid (pages s ! j) \<and> page_filename (pages s ! j) = fst (access_key (reqs ! j))
                \<and> block_num (pages s ! j) = snd (access_key (reqs ! j))) \<and>
     is_dirty (pages s ! 0) = (access_data (reqs ! 0) \<noteq> None) \<and>
     is_valid (pages s' ! 0) \<and> page_filename (pages s' ! 0) = f \<and> block_num (pages s' ! 0) = b \<and>
     \<not> is_dirty (pages s' ! 0) \<and> data (pages s' ! 0) = dat \<and>
     VirtualDisk_read_block (fs_disk s') b = Inr dat \<and>
     length (pages s') = n \<and>
     (\<forall>j < n. 0 < j \<longrightarrow> pages s' ! j = pages s ! j) \<and>
     (\<forall>j < n. \<not> (page_filename (pages s' ! j) = fst (access_key (reqs ! 0))
                   \<and> block_num (pages s' ! j) = snd (access_key (reqs ! 0)))) \<and>
     (if is_dirty (pages s ! 0)
      then VirtualDisk_write_block (fs_disk s) (block_num (pages s ! 0)) (data (pages s ! 0))
             = Inr (fs_disk s') \<and> writeback_count s' = writeback_count s + 1
      else fs_disk s' = fs_disk s \<and> writeback_count s' = writeback_count s)"
proof -
  note d1 = dist(1) and fresh = dist(2)
  from len have "length reqs \<le> n" by simp
  from run_ops_filled [OF this d1 adr] s have sf: "s = filled d n reqs" by simp
  have pg: "pages s ! j = cached_page d j (reqs ! j)" if "j < n" for j
    using that len by (simp add: sf filled_pages_nth)
  have flds: "fs_disk s = d" "writeback_count s = 0" "length (pages s) = n"
    using len by (simp_all add: sf filled_def)
  from n len adr have "addressable d (block_num (pages s ! 0))" by (simp add: pg)
  from write_block_addressable [OF this, of "data (pages s ! 0)"] obtain dw
    where dw: "VirtualDisk_write_block d (block_num (pages s ! 0)) (data (pages s ! 0)) = Inr dw"
    by blast
  define d' where "d' = (if is_dirty (pages s ! 0) then dw else d)"
  have wb: "if is_dirty (pages (filled d n reqs) ! 0)
             then VirtualDisk_write_block d (block_num (pages (filled d n reqs) ! 0))
                    (data (pages (filled d n reqs) ! 0)) = Inr d'
             else d' = d"
    using dw by (simp add: d'_def sf)
  have "offset_limit d' = offset_limit d"
    using write_block_limit [OF dw] by (simp add: d'_def)
  from addressable_limit [OF this] b have b': "addressable d' b" by simp
  note ld = load_block_full [OF len n fresh b wb, of now' pid', folded sf]
  have keys: "\<not> (f = fst (access_key (reqs ! 0)) \<and> b = snd (access_key (reqs ! 0)))"
  proof -
    from n len have "access_key (reqs ! 0) \<in> set (map access_key reqs)" by simp
    with fresh have "access_key (reqs ! 0) \<noteq> (f, b)" by metis
    then show ?thesis by (auto simp add: prod_eq_iff)
  qed
  have others: "\<not> (page_filename (pages s ! j) = fst (access_key (reqs ! 0))
                   \<and> block_num (pages s ! j) = snd (access_key (reqs ! 0)))"
    if j: "j < n" "0 < j" for j
  proof -
    from d1 j len n have "access_key (reqs ! j) \<noteq> access_key (reqs ! 0)"
      by (simp add: distinct_conv_nth)
    with j show ?thesis by (auto simp add: pg prod_eq_iff)
  qed
  define dat where "dat = take BLOCK_SIZE (drop (nat b * BLOCK_SIZE) (file_bytes d'))"
  define p' where "p' = \<lparr>page_id = 0, block_num = b, page_filename = f, data = dat,
           is_dirty = False, is_valid = True, owner_pid = pid',
           access_time = now', load_time = now', access_count = 1\<rparr>"
  define s' where "s' = \<lparr>fs_disk = d', buffer_size = n, pages = (pages s)[0 := p'],
       lru_order = [1..<n] @ [0], hit_count = 0, miss_count = Suc n,
       writeback_count = (if is_dirty (pages s ! 0) then 1 else 0)\<rparr>"
  from ld have run: "load_block s now' f b pid' = (Inr (Some 0, dat), s')"
    by (simp add: s'_def p'_def dat_def)
  have p'j: "pages s' ! j = (if j = 0 then p' else pages s ! j)" if "j < n" for j
    using that flds by (simp add: s'_def nth_list_update)
  have c1: "\<forall>j < n. is_valid (pages s ! j) \<and> page_filename (pages s ! j) = fst (access_key (reqs ! j))
                \<and> block_num (pages s ! j) = snd (access_key (reqs ! j))"
    by (simp add: pg)
  have c2: "is_dirty (pages s ! 0) = (access_data (reqs ! 0) \<noteq> None)"
    using n by (simp add: pg)
  have c3: "is_valid (pages s' ! 0) \<and> page_filename (pages s' ! 0) = f \<and> block_num (pages s' ! 0) = b \<and>
     \<not> is_dirty (pages s' ! 0) \<and> data (pages s' ! 0) = dat"
    using n by (simp add: p'j p'_def)
  have c4: "VirtualDisk_read_block (fs_disk s') b = Inr dat"
    using read_block_addressable [OF b'] by (simp add: s'_def dat_def)
  have c5: "length (pages s') = n" using flds by (simp add: s'_def)
  have c6: "\<forall>j < n. 0 < j \<longrightarrow> pages s' ! j = pages s ! j"
    by (simp add: p'j)
  have c7: "\<forall>j < n. \<not> (page_filename (pages s' ! j) = fst (access_key (reqs ! 0))
                   \<and> block_num (pages s' ! j) = snd (access_key (reqs ! 0)))"
  proof (intro allI impI)
    fix j assume j: "j < n"
    show "\<not> (page_filename (pages s' ! j) = fst (access_key (reqs ! 0))
                   \<and> block_num (pages s' ! j) = snd (access_key (reqs ! 0)))"
    proof (cases "j = 0")
      case True
      with keys j show ?thesis by (auto simp add: p'j p'_def)
    next
      case False
      with others [of j] j show ?thesis by (simp add: p'j)
    qed
  qed
  have c8: "if is_dirty (pages s ! 0)
      then VirtualDisk_write_block (fs_disk s) (block_num (pages s ! 0)) (data (pages s ! 0))
             = Inr (fs_disk s') \<and> writeback_count s' = writeback_count s + 1
      else fs_disk s' = fs_disk s \<and> writeback_count s' = writeback_count s"
    using dw by (simp add: flds s'_def d'_def)
  from run c1 c2 c3 c4 c5 c6 c7 c8 show ?thesis by blast
qed

lemma scenario_B_facts:
  "length scenario_B = BUFFER_SIZE"
  "distinct (map access_key scenario_B)"
  "([97, 46, 116, 120, 116], 51) \<notin> set (map access_key scenario_B)"
  "\<forall>r \<in> set scenario_B. addressable fresh_disk (snd (access_key r))"
  "scenario_B ! 0 = (35, 1, [97, 46, 116, 120, 116], 35, None)"
  by (auto simp add: scenario_B_def distinct_map inj_on_def comp_def addressable_fresh_disk)

lemma scenario_B_dirty_facts:
  "length scenario_B_dirty = BUFFER_SIZE"
  "distinct (map access_key scenario_B_dirty)"
  "([97, 46, 116, 120, 116], 51) \<notin> set (map access_key scenario_B_dirty)"
  "\<forall>r \<in> set scenario_B_dirty. addressable fresh_disk (snd (access_key r))"
  "scenario_B_dirty ! 0 = (0, 2, [97, 46, 116, 120, 116], 35, Some [1, 2, 3])"
  by (auto simp add: scenario_B_dirty_def distinct_map inj_on_def comp_def addressable_fresh_disk)

theorem lru_evicts_first_loaded_witness:
  "length scenario_B = BUFFER_SIZE \<and> 0 < BUFFER_SIZE \<and>
   distinct (map access_key scenario_B) \<and>
   ([97, 46, 116, 120, 116], 51) \<notin> set (map access_key scenario_B) \<and>
   list_all (\<lambda>r. addressable fresh_disk (snd (access_key r))) scenario_B \<and>
   addressable fresh_disk 51 \<and>
   (\<exists>dat s'.
      load_block (run_ops (BufferManager_init fresh_disk BUFFER_SIZE) (map access_op scenario_B))
        51 [97, 46, 116, 120, 116] 51 1 = (Inr (Some 0, dat), s') \<and>
      block_num (pages (run_ops (BufferManager_init fresh_disk BUFFER_SIZE)
                          (map access_op scenario_B)) ! 0) = 35 \<and>
      block_num (pages s' ! 0) = 51 \<and>
      writeback_count s' = writeback_count (run_ops (BufferManager_init fresh_disk BUFFER_SIZE)
                          (map access_op scenario_B))) \<and>
   length scenario_B_dirty = BUFFER_SIZE \<and>
   distinct (map access_key scenario_B_dirty) \<and>
   ([97, 46, 116, 120, 116], 51) \<notin> set (map access_key scenario_B_dirty) \<and>
   list_all (\<lambda>r. addressable fresh_disk (snd (access_key r))) scenario_B_dirty \<and>
   (\<exists>dat s'.
      load_block (run_ops (BufferManager_init fresh_disk BUFFER_SIZE) (map access_op scenario_B_dirty))
        51 [97, 46, 116, 120, 116] 51 1 = (Inr (Some 0, dat), s') \<and>
      is_dirty (pages (run_ops (BufferManager_init fresh_disk BUFFER_SIZE)
                          (map access_op scenario_B_dirty)) ! 0) \<and>
      block_num (pages (run_ops (BufferManager_init fresh_disk BUFFER_SIZE)
                          (map access_op scenario_B_dirty)) ! 0) = 35 \<and>
      block_num (pages s' ! 0) = 51 \<and> \<not> is_dirty (pages s' ! 0) \<and>
      writeback_count s' = writeback_count (run_ops (BufferManager_init fresh_disk BUFFER_SIZE)
                          (map access_op scenario_B_dirty)) + 1)"
proof -
  have b: "addressable fresh_disk 51" by (simp add: addressable_fresh_disk)
  from lru_evicts_first_loaded [OF refl scenario_B_facts(1) _ scenario_B_facts(2,3,4) b,
      of 51 1]
  obtain dat s' where
    "load_block (run_ops (BufferManager_init fresh_disk BUFFER_SIZE) (map access_op scenario_B))
        51 [97, 46, 116, 120, 116] 51 1 = (Inr (Some 0, dat), s')"
    "block_num (pages (run_ops (BufferManager_init fresh_disk BUFFER_SIZE)
                          (map access_op scenario_B)) ! 0) = 35"
    "block_num (pages s' ! 0) = 51"
    "writeback_count s' = writeback_count (run_ops (BufferManager_init fresh_disk BUFFER_SIZE)
                          (map access_op scenario_B))"
    by (auto simp add: scenario_B_facts(5))
  then have one: "\<exists>dat s'.
      load_block (run_ops (BufferManager_init fresh_disk BUFFER_SIZE) (map access_op scenario_B))
        51 [97, 46, 116, 120, 116] 51 1 = (Inr (Some 0, dat), s') \<and>
      block_num (pages (run_ops (BufferManager_init fresh_disk BUFFER_SIZE)
                          (map access_op scenario_B)) ! 0) = 35 \<and>
      block_num (pages s' ! 0) = 51 \<and>
      writeback_count s' = writeback_count (run_ops (BufferManager_init fresh_disk BUFFER_SIZE)
                          (map access_op scenario_B))"
    by blast
  from lru_evicts_first_loaded [OF refl scenario_B_dirty_facts(1) _ scenario_B_dirty_facts(2,3,4) b,
      of 51 1]
  obtain dat s' where
    "load_block (run_ops (BufferManager_init fresh_disk BUFFER_SIZE) (map access_op scenario_B_dirty))
        51 [97, 46, 116, 120, 116] 51 1 = (Inr (Some 0, dat), s')"
    "is_dirty (pages (run_ops (BufferManager_init fresh_disk BUFFER_SIZE)
                          (map access_op scenario_B_dirty)) ! 0)"
    "block_num (pages (run_ops (BufferManager_init fresh_disk BUFFER_SIZE)
                          (map access_op scenario_B_dirty)) ! 0) = 35"
    "block_num (pages s' ! 0) = 51" "\<not> is_dirty (pages s' ! 0)"
    "writeback_count s' = writeback_count (run_ops (BufferManager_init fresh_disk BUFFER_SIZE)
                          (map access_op scenario_B_dirty)) + 1"
    by (auto simp add: scenario_B_dirty_facts(5))
  then have two: "\<exists>dat s'.
      load_block (run_ops (BufferManager_init fresh_disk BUFFER_SIZE) (map access_op scenario_B_dirty))
        51 [97, 46, 116, 120, 116] 51 1 = (Inr (Some 0, dat), s') \<and>
      is_dirty (pages (run_ops (BufferManager_init fresh_disk BUFFER_SIZE)
                          (map access_op scenario_B_dirty)) ! 0) \<and>
      block_num (pages (run_ops (BufferManager_init fresh_disk BUFFER_SIZE)
                          (map access_op scenario_B_dirty)) ! 0) = 35 \<and>
      block_num (pages s' ! 0) = 51 \<and> \<not> is_dirty (pages s' ! 0) \<and>
      writeback_count s' = writeback_count (run_ops (BufferManager_init fresh_disk BUFFER_SIZE)
                          (map access_op scenario_B_dirty)) + 1"
    by blast
  have "0 < BUFFER_SIZE" by simp
  with one two b scenario_B_facts(1-4) scenario_B_dirty_facts(1-4) show ?thesis
    unfolding list_all_iff by (intro conjI) assumption+
qed

subsection \<open>Block store: block numbers in and out of range\<close>

lemma ljust_length: "length xs \<le> n \<Longrightarrow> length (ljust n c xs) = n"
  by (simp add: ljust_def)

lemma block_padded_length [simp]: "length (ljust BLOCK_SIZE 0 (take BLOCK_SIZE dat)) = BLOCK_SIZE"
  by (simp add: ljust_def)

lemma seek_negative:
  "- 144115188075855872 \<le> n \<Longrightarrow> n < 0 \<Longrightarrow> seek d (n * 64) = Inl OSError"
  by (simp add: seek_def)

lemma read_block_in_range:
  assumes n: "addressable d n" "nat n * BLOCK_SIZE + BLOCK_SIZE \<le> length (file_bytes d)"
  shows "\<exists>x. VirtualDisk_read_block d n = Inr x \<and> length x = BLOCK_SIZE"
  using n by (simp add: read_block_addressable)

lemma write_block_in_range:
  assumes n: "addressable d n" "nat n * BLOCK_SIZE + BLOCK_SIZE \<le> length (file_bytes d)"
  shows "\<exists>d'. VirtualDisk_write_block d n dat = Inr d' \<and>
              length (file_bytes d') = length (file_bytes d) \<and>
              VirtualDisk_read_block d' n = Inr (ljust BLOCK_SIZE 0 (take BLOCK_SIZE dat))"
proof -
  let ?d' = "d\<lparr>file_bytes :=
            take (nat n * BLOCK_SIZE)
              (file_bytes d @ replicate (nat n * BLOCK_SIZE - length (file_bytes d)) 0)
            @ ljust BLOCK_SIZE 0 (take BLOCK_SIZE dat)
            @ drop (nat n * BLOCK_SIZE + BLOCK_SIZE)
                (file_bytes d @ replicate (nat n * BLOCK_SIZE - length (file_bytes d)) 0)\<rparr>"
  have w: "VirtualDisk_write_block d n dat = Inr ?d'"
    by (rule write_block_addressable [OF n(1)])
  have a: "addressable ?d' n" using n(1) by (simp add: addressable_def)
  have l: "length (file_bytes ?d') = length (file_bytes d)" using n(2) by simp
  have r: "VirtualDisk_read_block ?d' n = Inr (ljust BLOCK_SIZE 0 (take BLOCK_SIZE dat))"
    using n(2) a by (simp add: read_block_addressable)
  from w l r show ?thesis by blast
qed

lemma write_block_beyond:
  assumes n: "addressable d n" "length (file_bytes d) \<le> nat n * BLOCK_SIZE"
  shows "VirtualDisk_read_block d n = Inr [] \<and>
         (\<exists>d'. VirtualDisk_write_block d n dat = Inr d' \<and>
               length (file_bytes d') = nat n * BLOCK_SIZE + BLOCK_SIZE)"
  using n by (simp add: read_block_addressable write_block_addressable)

text \<open>
  C4 as stated fails above the range: on the freshly created disk of 1024 blocks,
  \<open>read_block(1024)\<close> returns the empty byte string and \<open>write_block(1024, data)\<close>
  appends a block to the backing file; neither raises.
\<close>

theorem block_out_of_range_counterexample:
  "VirtualDisk_read_block fresh_disk 1024 = Inr [] \<and>
   VirtualDisk_write_block fresh_disk 1024 [1, 2, 3]
     = Inr (fresh_disk\<lparr>file_bytes := file_bytes fresh_disk @ [1, 2, 3] @ replicate 61 0\<rparr>)"
  by (simp add: VirtualDisk_read_block_def VirtualDisk_write_block_def seek_def fresh_disk_def
      Let_def ljust_def)

text \<open>
  C4, amended. On a disk whose backing file holds \<open>TOTAL_BLOCKS * BLOCK_SIZE\<close> bytes,
  which the host admits, for every block number in \<open>[0, TOTAL_BLOCKS)\<close> \<open>read_block\<close>
  returns exactly \<open>BLOCK_SIZE\<close> bytes and \<open>write_block\<close> stores the data padded or cut to
  \<open>BLOCK_SIZE\<close> bytes without changing the file size. For a negative block number whose
  byte offset fits a signed 64-bit integer both fail with an I/O error (\<open>OSError\<close> from
  \<open>seek\<close>). A block number at or above \<open>TOTAL_BLOCKS\<close> does not by itself make them fail:
  as long as the block lies within the host's limit, \<open>read_block\<close> returns no bytes and
  \<open>write_block\<close> grows the backing file up to the end of that block.
\<close>

theorem block_range:
  "(- 144115188075855872 \<le> n \<and> n < 0 \<longrightarrow>
      VirtualDisk_read_block d n = Inl OSError \<and> VirtualDisk_write_block d n dat = Inl OSError) \<and>
   (length (file_bytes d) = BLOCK_SIZE * TOTAL_BLOCKS
      \<and> int (BLOCK_SIZE * TOTAL_BLOCKS) \<le> offset_limit d \<and> 0 \<le> n \<and> n < int TOTAL_BLOCKS \<longrightarrow>
      (\<exists>x. VirtualDisk_read_block d n = Inr x \<and> length x = BLOCK_SIZE) \<and>
      (\<exists>d'. VirtualDisk_write_block d n dat = Inr d' \<and>
            length (file_bytes d') = length (file_bytes d) \<and>
            VirtualDisk_read_block d' n = Inr (ljust BLOCK_SIZE 0 (take BLOCK_SIZE dat)))) \<and>
   (length (file_bytes d) = BLOCK_SIZE * TOTAL_BLOCKS \<and> int TOTAL_BLOCKS \<le> n
      \<and> addressable d n \<longrightarrow>
      VirtualDisk_read_block d n = Inr [] \<and>
      (\<exists>d'. VirtualDisk_write_block d n dat = Inr d' \<and>
            length (file_bytes d') = nat n * BLOCK_SIZE + BLOCK_SIZE))"
proof (intro conjI impI)
  assume "- 144115188075855872 \<le> n \<and> n < 0"
  then show "VirtualDisk_read_block d n = Inl OSError"
    by (simp add: VirtualDisk_read_block_def seek_negative)
next
  assume "- 144115188075855872 \<le> n \<and> n < 0"
  then show "VirtualDisk_write_block d n dat = Inl OSError"
    by (simp add: VirtualDisk_write_block_def seek_negative Let_def)
next
  assume a: "length (file_bytes d) = BLOCK_SIZE * TOTAL_BLOCKS
      \<and> int (BLOCK_SIZE * TOTAL_BLOCKS) \<le> offset_limit d \<and> 0 \<le> n \<and> n < int TOTAL_BLOCKS"
  then have "addressable d n" "nat n * BLOCK_SIZE + BLOCK_SIZE \<le> length (file_bytes d)"
    by (auto simp add: addressable_def)
  then show "\<exists>x. VirtualDisk_read_block d n = Inr x \<and> length x = BLOCK_SIZE"
    by (rule read_block_in_range)
next
  assume a: "length (file_bytes d) = BLOCK_SIZE * TOTAL_BLOCKS
      \<and> int (BLOCK_SIZE * TOTAL_BLOCKS) \<le> offset_limit d \<and> 0 \<le> n \<and> n < int TOTAL_BLOCKS"
  then have "addressable d n" "nat n * BLOCK_SIZE + BLOCK_SIZE \<le> length (file_bytes d)"
    by (auto simp add: addressable_def)
  then show "\<exists>d'. VirtualDisk_write_block d n dat = Inr d' \<and>
            length (file_bytes d') = length (file_bytes d) \<and>
            VirtualDisk_read_block d' n = Inr (ljust BLOCK_SIZE 0 (take BLOCK_SIZE dat))"
    by (rule write_block_in_range)
next
  assume a: "length (file_bytes d) = BLOCK_SIZE * TOTAL_BLOCKS \<and> int TOTAL_BLOCKS \<le> n
      \<and> addressable d n"
  then have "length (file_bytes d) \<le> nat n * BLOCK_SIZE" by auto
  with a write_block_beyond [of d n dat] show "VirtualDisk_read_block d n = Inr []" by simp
next
  assume a: "length (file_bytes d) = BLOCK_SIZE * TOTAL_BLOCKS \<and> int TOTAL_BLOCKS \<le> n
      \<and> addressable d n"
  then have "length (file_bytes d) \<le> nat n * BLOCK_SIZE" by auto
  with a write_block_beyond [of d n dat]
  show "\<exists>d'. VirtualDisk_write_block d n dat = Inr d' \<and>
            length (file_bytes d') = nat n * BLOCK_SIZE + BLOCK_SIZE" by simp
qed

theorem block_range_witness:
  "(- 144115188075855872 :: int) \<le> - 1 \<and> (- 1 :: int) < 0 \<and>
   VirtualDisk_read_block fresh_disk (- 1) = Inl OSError \<and>
   VirtualDisk_write_block fresh_disk (- 1) [7] = Inl OSError \<and>
   length (file_bytes fresh_disk) = BLOCK_SIZE * TOTAL_BLOCKS \<and>
   int (BLOCK_SIZE * TOTAL_BLOCKS) \<le> offset_limit fresh_disk \<and>
   (0 :: int) \<le> 35 \<and> (35 :: int) < int TOTAL_BLOCKS \<and>
   (\<exists>x. VirtualDisk_read_block fresh_disk 35 = Inr x \<and> length x = BLOCK_SIZE) \<and>
   (\<exists>d'. VirtualDisk_write_block fresh_disk 35 [7] = Inr d' \<and>
         length (file_bytes d') = length (file_bytes fresh_disk) \<and>
         VirtualDisk_read_block d' 35 = Inr (ljust BLOCK_SIZE 0 (take BLOCK_SIZE [7]))) \<and>
   int TOTAL_BLOCKS \<le> 2000 \<and> addressable fresh_disk 2000 \<and>
   VirtualDisk_read_block fresh_disk 2000 = Inr [] \<and>
   (\<exists>d'. VirtualDisk_write_block fresh_disk 2000 [7] = Inr d' \<and>
         length (file_bytes d') = nat 2000 * BLOCK_SIZE + BLOCK_SIZE)"
proof -
  have len: "length (file_bytes fresh_disk) = BLOCK_SIZE * TOTAL_BLOCKS"
    "int (BLOCK_SIZE * TOTAL_BLOCKS) \<le> offset_limit fresh_disk"
    "addressable fresh_disk 2000"
    by (simp_all add: fresh_disk_def addressable_def)
  from block_range [of "- 1" fresh_disk "[7]"] block_range [of 35 fresh_disk "[7]"]
    block_range [of 2000 fresh_disk "[7]"] len
  show ?thesis by simp
qed

subsection \<open>Binary records\<close>

lemma length_le_bytes [simp]: "length (le_bytes k x) = k"
  by (induction k arbitrary: x) simp_all

lemma le_uint_le_bytes: "le_uint (le_bytes k x) = x mod 256 ^ k"
proof (induction k arbitrary: x)
  case 0
  show ?case by simp
next
  case (Suc k)
  have "uint (word_of_int x :: byte) = x mod 256"
    by (simp add: uint_word_of_int)
  moreover have "x mod (256 * 256 ^ k) = 256 * (x div 256 mod 256 ^ k) + x mod 256"
    by (rule zmod_zmult2_eq) simp
  ultimately show ?case using Suc by simp
qed

lemma mod_signed:
  fixes x h m :: int
  assumes "- h \<le> x" "x < h" "m = 2 * h"
  shows "(if h \<le> x mod m then x mod m - m else x mod m) = x"
proof (cases "0 \<le> x")
  case True
  with assms have "x mod m = x" by (intro mod_pos_pos_trivial) simp_all
  with assms show ?thesis by simp
next
  case False
  with assms have "(x + m) mod m = x + m" by (intro mod_pos_pos_trivial) simp_all
  then have "x mod m = x + m" by simp
  with False assms show ?thesis by simp
qed

lemma le_sint_le_bytes2:
  assumes "- 32768 \<le> x" "x \<le> 32767"
  shows "le_sint (le_bytes 2 x) = x"
proof -
  from assms have "- 32768 \<le> x" "x < 32768" by simp_all
  from mod_signed [OF this, of 65536] show ?thesis
    unfolding le_sint_def le_uint_le_bytes length_le_bytes by (simp split: if_splits)
qed

lemma le_sint_le_bytes4:
  assumes "- 2147483648 \<le> x" "x \<le> 2147483647"
  shows "le_sint (le_bytes 4 x) = x"
proof -
  from assms have "- 2147483648 \<le> x" "x < 2147483648" by simp_all
  from mod_signed [OF this, of 4294967296] show ?thesis
    unfolding le_sint_def le_uint_le_bytes length_le_bytes by (simp split: if_splits)
qed

lemma le_uint_le_bytes4:
  "0 \<le> x \<Longrightarrow> x \<le> 4294967295 \<Longrightarrow> le_uint (le_bytes 4 x) = x"
  unfolding le_uint_le_bytes by simp

lemma bit_128: "bit (128 :: int) k \<longleftrightarrow> k = 7"
  using bit_exp_iff [of 7 k, where ?'a = int] by simp

lemma bit_64: "bit (64 :: int) k \<longleftrightarrow> k = 6"
  using bit_exp_iff [of 6 k, where ?'a = int] by simp

lemma bit_7: "bit (7 :: int) k \<longleftrightarrow> k < 3"
  using bit_mask_iff [of 3 k, where ?'a = int] by (simp add: mask_eq_exp_minus_1)

lemma bit_56: "bit (56 :: int) k \<longleftrightarrow> 3 \<le> k \<and> k < 6"
proof -
  have "(56 :: int) = push_bit 3 7" by simp
  then have "bit (56 :: int) k = bit (push_bit 3 (7 :: int)) k" by simp
  also have "\<dots> \<longleftrightarrow> 3 \<le> k \<and> k < 6" by (auto simp only: bit_push_bit_iff bit_7 possible_bit_int)
  finally show ?thesis .
qed

lemma bit_inode_flags:
  "bit (inode_flags n) k \<longleftrightarrow>
     (is_used n \<and> k = 7) \<or> (is_directory n \<and> k = 6)
     \<or> (3 \<le> k \<and> k < 6 \<and> bit (permission n) (k - 3)) \<or> (k < 3 \<and> bit (ref_count n) k)"
  unfolding inode_flags_def
  by (auto simp add: bit_or_iff bit_and_iff bit_push_bit_iff bit_128 bit_64 bit_7 bit_56)

lemma inode_flags_range: "0 \<le> inode_flags n \<and> inode_flags n \<le> 255"
proof -
  have "take_bit 8 (inode_flags n) = inode_flags n"
    by (rule bit_eqI) (auto simp add: bit_take_bit_iff bit_inode_flags)
  then have "0 \<le> inode_flags n \<and> inode_flags n < 2 ^ 8"
    by (simp add: take_bit_int_eq_self_iff)
  then show ?thesis by simp
qed

lemma inode_flags_fields:
  "inode_flags n AND 0x07 = take_bit 3 (ref_count n)"
  "drop_bit 3 (inode_flags n) AND 0x07 = take_bit 3 (permission n)"
  "(inode_flags n AND 0x80 \<noteq> 0) = is_used n"
  "(inode_flags n AND 0x40 \<noteq> 0) = is_directory n"
proof -
  show "inode_flags n AND 0x07 = take_bit 3 (ref_count n)"
    by (rule bit_eqI) (auto simp add: bit_and_iff bit_take_bit_iff bit_7 bit_inode_flags)
  show "drop_bit 3 (inode_flags n) AND 0x07 = take_bit 3 (permission n)"
    by (rule bit_eqI) (auto simp add: bit_and_iff bit_take_bit_iff bit_drop_bit_eq bit_7 bit_inode_flags)
  have "bit (inode_flags n) 7 = is_used n" by (simp add: bit_inode_flags)
  then have "(inode_flags n AND push_bit 7 1 \<noteq> 0) = is_used n"
    by (simp only: bit_iff_and_push_bit_not_eq_0)
  then show "(inode_flags n AND 0x80 \<noteq> 0) = is_used n" by simp
  have "bit (inode_flags n) 6 = is_directory n" by (simp add: bit_inode_flags)
  then have "(inode_flags n AND push_bit 6 1 \<noteq> 0) = is_directory n"
    by (simp only: bit_iff_and_push_bit_not_eq_0)
  then show "(inode_flags n AND 0x40 \<noteq> 0) = is_directory n" by simp
qed

lemma unat_byte: "n < 256 \<Longrightarrow> unat (of_nat n :: byte) = n"
  by (simp add: unat_of_nat)

lemma mod_small:
  "q < 32 \<Longrightarrow> (192 + q) mod 32 = (q :: nat)"
  "q < 16 \<Longrightarrow> (224 + q) mod 16 = (q :: nat)"
  "q < 8 \<Longrightarrow> (240 + q) mod 8 = (q :: nat)"
  "q < 64 \<Longrightarrow> (128 + q) mod 64 = (q :: nat)"
proof -
  have "(192 + q) mod 32 = (q + 32 * 6) mod 32" "(224 + q) mod 16 = (q + 16 * 14) mod 16"
    "(240 + q) mod 8 = (q + 8 * 30) mod 8" "(128 + q) mod 64 = (q + 64 * 2) mod 64"
    by (simp_all add: add.commute)
  then show "q < 32 \<Longrightarrow> (192 + q) mod 32 = q" "q < 16 \<Longrightarrow> (224 + q) mod 16 = q"
    "q < 8 \<Longrightarrow> (240 + q) mod 8 = q" "q < 64 \<Longrightarrow> (128 + q) mod 64 = q"
    by (simp_all only: mod_mult_self2 mod_less)
qed

lemma decode_encode_char:
  assumes "encode_char c = Inr bs"
  shows "decode_ignore (map unat bs @ rest) = c # decode_ignore rest"
proof -
  define q1 r1 q2 r2 q3 r3 where "q1 = c div 64" and "r1 = c mod 64" and "q2 = q1 div 64"
    and "r2 = q1 mod 64" and "q3 = q2 div 64" and "r3 = q2 mod 64"
  have dm: "c = 64 * q1 + r1" "r1 < 64" "q1 = 64 * q2 + r2" "r2 < 64" "q2 = 64 * q3 + r3" "r3 < 64"
    by (simp_all add: q1_def r1_def q2_def r2_def q3_def r3_def)
  have dv: "c div 4096 = q2" "c div 262144 = q3" "c div 64 mod 64 = r2" "c div 4096 mod 64 = r3"
    "c div 64 = q1" "c mod 64 = r1" "q1 mod 64 = r2" "q2 mod 64 = r3"
  proof -
    have "c div 4096 = c div (64 * 64)" "c div 262144 = c div (64 * 64 * 64)" by simp_all
    then show "c div 4096 = q2" "c div 262144 = q3"
      unfolding q1_def q2_def q3_def div_mult2_eq by simp_all
    then show "c div 4096 mod 64 = r3" by (simp add: r3_def)
  qed (simp_all add: q1_def r1_def r2_def r3_def)
  have bd: "r1 < 64" "r2 < 64" "r3 < 64" by (simp_all add: r1_def r2_def r3_def)
  have val1: "q1 * 64 + r1 = c" using dm(1) by linarith
  have val2: "q2 * 4096 + r2 * 64 + r1 = c" using dm(1) dm(3) by linarith
  have val3: "q3 * 262144 + r3 * 4096 + r2 * 64 + r1 = c" using dm(1) dm(3) dm(5) by linarith
  consider (a) "c < 0x80" | (b) "0x80 \<le> c" "c < 0x800"
    | (c) "0x800 \<le> c" "c < 0x10000" "\<not> (0xD800 \<le> c \<and> c \<le> 0xDFFF)"
    | (d) "0x10000 \<le> c" "c < 0x110000"
    using assms by (auto simp add: encode_char_def split: if_splits) 
  then show ?thesis
  proof cases
    case a
    with assms show ?thesis by (auto simp add: encode_char_def unat_byte)
  next
    case b
    then have r: "q1 < 32" "2 \<le> q1"
      by (simp_all add: q1_def less_eq_div_iff_mult_less_eq div_less_iff_less_mult)
    from b assms have bs: "bs = [of_nat (0xC0 + q1), of_nat (0x80 + r1)]"
      by (simp add: encode_char_def dv del: of_nat_add of_nat_numeral)
    have u: "unat (of_nat (0xC0 + q1) :: byte) = 0xC0 + q1"
      "unat (of_nat (0x80 + r1) :: byte) = 0x80 + r1"
      using r bd by (intro unat_byte; simp)+
    show ?thesis
      using r bd val1 by (simp add: bs u mod_small is_continuation_def del: of_nat_add of_nat_numeral)
  next
    case c
    then have q1b: "32 \<le> q1" "q1 < 1024" "q1 < 864 \<or> 896 \<le> q1"
      by (auto simp add: q1_def less_eq_div_iff_mult_less_eq div_less_iff_less_mult)
    then have r: "q2 < 16" by (simp add: q2_def div_less_iff_less_mult)
    have e0: "q2 = 0 \<longrightarrow> 32 \<le> r2" using dm(3) q1b(1) by auto
    have ed: "q2 = 13 \<longrightarrow> r2 < 32" using dm(3) dm(4) q1b(3) by auto
    from c assms have bs: "bs = [of_nat (0xE0 + q2), of_nat (0x80 + r2), of_nat (0x80 + r1)]"
      by (auto simp add: encode_char_def dv simp del: of_nat_add of_nat_numeral split: if_splits)
    have u: "unat (of_nat (0xE0 + q2) :: byte) = 0xE0 + q2"
      "unat (of_nat (0x80 + r2) :: byte) = 0x80 + r2"
      "unat (of_nat (0x80 + r1) :: byte) = 0x80 + r1"
      using r bd by (intro unat_byte; simp)+
    show ?thesis
      using r e0 ed bd val2 by (auto simp add: bs u mod_small is_continuation_def simp del: of_nat_add of_nat_numeral)
  next
    case d
    then have q2b: "16 \<le> q2" "q2 < 272"
      by (simp_all add: dv(1) [symmetric] less_eq_div_iff_mult_less_eq div_less_iff_less_mult)
    then have r: "q3 < 5" by (simp add: q3_def div_less_iff_less_mult)
    have f0: "q3 = 0 \<longrightarrow> 16 \<le> r3" using dm(5) q2b(1) by auto
    have f4: "q3 = 4 \<longrightarrow> r3 < 16" using dm(5) dm(6) q2b(2) by auto
    from d assms have bs: "bs = [of_nat (0xF0 + q3), of_nat (0x80 + r3),
             of_nat (0x80 + r2), of_nat (0x80 + r1)]"
      by (simp add: encode_char_def dv del: of_nat_add of_nat_numeral)
    have u: "unat (of_nat (0xF0 + q3) :: byte) = 0xF0 + q3"
      "unat (of_nat (0x80 + r3) :: byte) = 0x80 + r3"
      "unat (of_nat (0x80 + r2) :: byte) = 0x80 + r2"
      "unat (of_nat (0x80 + r1) :: byte) = 0x80 + r1"
      using r bd by (intro unat_byte; simp)+
    show ?thesis
      using r f0 f4 bd val3 by (auto simp add: bs u mod_small is_continuation_def simp del: of_nat_add of_nat_numeral)
  qed
qed

lemma decode_encode_chars:
  "mapE encode_char s = Inr bss \<Longrightarrow>
   decode_ignore (map unat (concat bss) @ rest) = s @ decode_ignore rest"
proof (induction s arbitrary: bss)
  case Nil
  then show ?case by simp
next
  case (Cons c s)
  from Cons.prems obtain bs bss' where c: "encode_char c = Inr bs"
    and s: "mapE encode_char s = Inr bss'" and bss: "bss = bs # bss'"
    by (auto simp add: bindE_def split: sum.splits)
  from decode_encode_char [OF c, of "map unat (concat bss') @ rest"] Cons.IH [OF s]
  show ?case by (simp add: bss)
qed

lemma utf8_decode_encode:
  "utf8_encode s = Inr enc \<Longrightarrow> utf8_decode_ignore enc = s"
  using decode_encode_chars [of s _ "[]"]
  by (auto simp add: utf8_encode_def utf8_decode_ignore_def bindE_def split: sum.splits)

lemma rstrip_nul_padded:
  "enc = [] \<or> last enc \<noteq> 0 \<Longrightarrow> rstrip_nul (enc @ replicate k 0) = enc"
  by (cases enc rule: rev_cases) (auto simp add: rstrip_nul_def dropWhile_append3)

subsection \<open>Inode records\<close>

lemma mapE_Inr:
  "\<forall>x \<in> set xs. \<exists>y. f x = Inr y \<Longrightarrow> mapE f xs = Inr (map (\<lambda>x. projr (f x)) xs)"
  by (induction xs) (auto simp add: bindE_def)

lemma mapE_pack_h:
  "\<forall>x \<in> set xs. - 32768 \<le> x \<and> x \<le> 32767 \<Longrightarrow> mapE pack_h xs = Inr (map (le_bytes 2) xs)"
  by (induction xs) (auto simp add: bindE_def pack_h_def)

lemma mapE_pack_i:
  "\<forall>x \<in> set xs. - 2147483648 \<le> x \<and> x \<le> 2147483647 \<Longrightarrow>
   mapE pack_i xs = Inr (map (le_bytes 4) xs)"
  by (induction xs) (auto simp add: bindE_def pack_i_def)

lemma mapE_pack_I:
  "\<forall>x \<in> set xs. 0 \<le> x \<and> x \<le> 4294967295 \<Longrightarrow> mapE pack_I xs = Inr (map (le_bytes 4) xs)"
  by (induction xs) (auto simp add: bindE_def pack_I_def)

lemma length_concat_le_bytes [simp]:
  "length (concat (map (le_bytes k) xs)) = k * length xs"
  by (induction xs) simp_all

lemma chunk_concat_le_bytes:
  "i < length xs \<Longrightarrow> take k (drop (k * i) (concat (map (le_bytes k) xs))) = le_bytes k (xs ! i)"
proof (induction xs arbitrary: i)
  case Nil
  then show ?case by simp
next
  case (Cons x xs)
  show ?case
  proof (cases i)
    case 0
    then show ?thesis by simp
  next
    case (Suc j)
    with Cons.prems have "j < length xs" by simp
    from Cons.IH [OF this] show ?thesis by (simp add: Suc)
  qed
qed

lemma length_stored_direct: "length (stored_direct n) = DIRECT_BLOCKS"
  by (simp add: stored_direct_def)

lemma stored_direct_full:
  "length (direct_blocks n) = DIRECT_BLOCKS \<Longrightarrow> stored_direct n = direct_blocks n"
  by (auto simp add: stored_direct_def intro!: nth_equalityI)

lemma stored_direct_range:
  assumes "\<forall>b \<in> set (take DIRECT_BLOCKS (direct_blocks n)). - 32768 \<le> b \<and> b \<le> 32767"
  shows "\<forall>b \<in> set (stored_direct n). - 32768 \<le> b \<and> b \<le> 32767"
proof
  fix b assume "b \<in> set (stored_direct n)"
  then obtain i where i: "i < DIRECT_BLOCKS"
    and b: "b = (if i < length (direct_blocks n) then direct_blocks n ! i else -1)"
    by (auto simp add: stored_direct_def)
  show "- 32768 \<le> b \<and> b \<le> 32767"
  proof (cases "i < length (direct_blocks n)")
    case True
    with i have "direct_blocks n ! i \<in> set (take DIRECT_BLOCKS (direct_blocks n))"
      by (auto simp add: in_set_conv_nth intro!: exI [of _ i])
    with assms b True show ?thesis by auto
  next
    case False
    with b show ?thesis by simp
  qed
qed

lemma INode_to_bytes_packable:
  assumes "packable n" and enc: "utf8_encode (filename n) = Inr enc"
  shows "INode_to_bytes n =
     Inr (le_bytes 1 (inode_id n) @ ljust MAX_FILENAME 0 (take MAX_FILENAME enc)
          @ le_bytes 4 (file_size n) @ le_bytes 1 (inode_flags n)
          @ concat (map (le_bytes 2) (stored_direct n)) @ le_bytes 2 (indirect_block n)
          @ replicate 16 0)"
proof -
  from assms have r: "0 \<le> inode_id n" "inode_id n \<le> 255" "0 \<le> file_size n"
    "file_size n \<le> 4294967295" "- 32768 \<le> indirect_block n" "indirect_block n \<le> 32767"
    and d: "\<forall>b \<in> set (take DIRECT_BLOCKS (direct_blocks n)). - 32768 \<le> b \<and> b \<le> 32767"
    by (simp_all add: packable_def)
  have m: "mapE (\<lambda>i. pack_h (if i < length (direct_blocks n) then direct_blocks n ! i else -1))
              [0..<DIRECT_BLOCKS] = Inr (map (le_bytes 2) (stored_direct n))"
  proof -
    have "mapE f (map g xs) = mapE (\<lambda>x. f (g x)) xs" for f :: "int \<Rightarrow> exn + bytes" and g and xs :: "nat list"
      by (induction xs) simp_all
    from this [of pack_h "\<lambda>i. if i < length (direct_blocks n) then direct_blocks n ! i else -1" "[0..<DIRECT_BLOCKS]"]
      mapE_pack_h [OF stored_direct_range [OF d]]
    show ?thesis by (simp add: stored_direct_def)
  qed
  have len: "length (le_bytes 1 (inode_id n) @ ljust MAX_FILENAME 0 (take MAX_FILENAME enc)
          @ le_bytes 4 (file_size n) @ le_bytes 1 (inode_flags n)
          @ concat (map (le_bytes 2) (stored_direct n)) @ le_bytes 2 (indirect_block n)) = 48"
    by (simp add: ljust_def length_stored_direct)
  show ?thesis
    unfolding INode_to_bytes_def enc m
    using r inode_flags_range [of n] len
    by (simp add: bindE_def pack_B_def pack_I_def pack_h_def Let_def ljust_def [of 64])
qed

lemma inode_id_from_bytes: "inode_id (INode_from_bytes dat slot) = slot"
  by (simp add: INode_from_bytes_def new_inode_def Let_def)

lemma inode_layout:
  fixes a nm sz fl dr ind pad :: bytes
  assumes l: "length a = 1" "length nm = 20" "length sz = 4" "length fl = 1" "length dr = 20"
    "length ind = 2"
  defines "dat \<equiv> a @ nm @ sz @ fl @ dr @ ind @ pad"
  shows "take 20 (drop 1 dat) = nm" "take 4 (drop 21 dat) = sz" "dat ! 25 = fl ! 0"
    "i < 10 \<Longrightarrow> take 2 (drop (26 + 2 * i) dat) = take 2 (drop (2 * i) dr)"
    "take 2 (drop 46 dat) = ind"
proof -
  show "take 20 (drop 1 dat) = nm" "take 4 (drop 21 dat) = sz" "take 2 (drop 46 dat) = ind"
    using l by (simp_all add: dat_def)
  show "dat ! 25 = fl ! 0" using l by (simp add: dat_def nth_append)
  assume "i < 10"
  then have "2 * i + 2 \<le> length dr" using l by simp
  then have "take 2 (drop (2 * i) (dr @ ind @ pad)) = take 2 (drop (2 * i) dr)"
    by simp
  moreover have "drop (26 + 2 * i) dat = drop (2 * i) (dr @ ind @ pad)"
    using l by (simp add: dat_def)
  ultimately show "take 2 (drop (26 + 2 * i) dat) = take 2 (drop (2 * i) dr)" by simp
qed

lemma uint_le_bytes1: "0 \<le> x \<Longrightarrow> x \<le> 255 \<Longrightarrow> uint (le_bytes 1 x ! 0) = x"
  using le_uint_le_bytes [of 1 x] by simp

lemma take_bit_small: "0 \<le> (x :: int) \<Longrightarrow> x \<le> 7 \<Longrightarrow> take_bit 3 x = x"
  by (simp add: take_bit_int_eq_self)

lemma from_bytes_ref_count:
  assumes p: "packable n"
  shows "\<exists>bs. INode_to_bytes n = Inr bs \<and>
              ref_count (INode_from_bytes bs slot) = ref_count n mod 8"
proof -
  from p obtain enc where enc: "utf8_encode (filename n) = Inr enc"
    by (auto simp add: packable_def)
  define nm where "nm = ljust MAX_FILENAME 0 (take MAX_FILENAME enc)"
  define dr where "dr = concat (map (le_bytes 2) (stored_direct n))"
  define bs where "bs = le_bytes 1 (inode_id n) @ nm @ le_bytes 4 (file_size n)
     @ le_bytes 1 (inode_flags n) @ dr @ le_bytes 2 (indirect_block n) @ replicate 16 0"
  have tb: "INode_to_bytes n = Inr bs"
    using INode_to_bytes_packable [OF p enc] by (simp add: bs_def nm_def dr_def)
  have nml: "length nm = 20" by (simp add: nm_def ljust_def)
  have drl: "length dr = 20" by (simp add: dr_def length_stored_direct)
  have len: "length bs = 64" by (simp add: bs_def nml drl)
  note lay = inode_layout [where a = "le_bytes 1 (inode_id n)" and nm = nm
      and sz = "le_bytes 4 (file_size n)" and fl = "le_bytes 1 (inode_flags n)" and dr = dr
      and ind = "le_bytes 2 (indirect_block n)" and pad = "replicate 16 0",
      folded bs_def, OF _ nml _ _ drl]
  have f_flags: "uint (bs ! 25) = inode_flags n"
    using lay(3) inode_flags_range [of n] by (simp add: uint_word_of_int)
  have "ref_count (INode_from_bytes bs slot) = ref_count n mod 8"
    using len by (simp add: INode_from_bytes_def Let_def f_flags inode_flags_fields take_bit_eq_mod)
  with tb show ?thesis by blast
qed

lemma utf8_encode_a_txt: "utf8_encode [97, 46, 116, 120, 116] = Inr [97, 46, 116, 120, 116]"
  by (simp add: utf8_encode_def encode_char_def bindE_def)

lemma utf8_encode_empty: "utf8_encode [] = Inr []"
  by (simp add: utf8_encode_def bindE_def)

text \<open>
  C3 as stated fails: an inode whose reference count is 8 is written without error, and
  the inode read back from its bytes has the reference count 0, in the inode's own slot.
\<close>

theorem inode_ref_count_counterexample:
  "inode_id wide_ref_inode = 0 \<and> ref_count wide_ref_inode = 8 \<and>
   (\<exists>bs. INode_to_bytes wide_ref_inode = Inr bs \<and> ref_count (INode_from_bytes bs 0) = 0)"
proof -
  have "packable wide_ref_inode"
    by (simp add: packable_def wide_ref_inode_def new_inode_def utf8_encode_empty)
  from from_bytes_ref_count [OF this, of 0] show ?thesis
    by (simp add: wide_ref_inode_def new_inode_def)
qed

text \<open>
  C3, amended. \<open>from_bytes\<close> always gives the inode the id of the slot it is read for. For
  every inode that \<open>to_bytes\<close> can store without loss (id in one byte, size in 32 bits,
  exactly \<open>DIRECT_BLOCKS\<close> direct entries and an indirect entry that fit 16 signed bits,
  permission and reference count in three bits each, a name whose UTF-8 encoding has at
  most \<open>MAX_FILENAME\<close> bytes and does not end in a NUL byte) and every slot,
  \<open>to_bytes\<close> returns 64 bytes and \<open>from_bytes\<close> of them reproduces every field except
  the id, which is the slot, and the two time stamps, which are not stored and come back
  as 0.
\<close>

theorem inode_roundtrip:
  "inode_id (INode_from_bytes dat slot) = slot \<and>
   (storable n \<longrightarrow>
      (\<exists>bs. INode_to_bytes n = Inr bs \<and> length bs = 64 \<and>
            INode_from_bytes bs slot = n\<lparr>inode_id := slot, create_time := 0, modify_time := 0\<rparr>))"
proof (intro conjI impI)
  show "inode_id (INode_from_bytes dat slot) = slot" by (rule inode_id_from_bytes)
next
  assume st: "storable n"
  then have p: "packable n" and perm: "0 \<le> permission n" "permission n \<le> 7"
    and ref: "0 \<le> ref_count n" "ref_count n \<le> 7"
    and dl: "length (direct_blocks n) = DIRECT_BLOCKS"
    by (simp_all add: storable_def)
  from st obtain enc where enc: "utf8_encode (filename n) = Inr enc"
    and el: "length enc \<le> MAX_FILENAME" and last: "enc = [] \<or> last enc \<noteq> 0"
    by (auto simp add: storable_def)
  from p have r: "0 \<le> inode_id n" "inode_id n \<le> 255" "0 \<le> file_size n"
    "file_size n \<le> 4294967295" "- 32768 \<le> indirect_block n" "indirect_block n \<le> 32767"
    and d: "\<forall>b \<in> set (take DIRECT_BLOCKS (direct_blocks n)). - 32768 \<le> b \<and> b \<le> 32767"
    by (simp_all add: packable_def)
  define nm where "nm = ljust MAX_FILENAME 0 (take MAX_FILENAME enc)"
  define dr where "dr = concat (map (le_bytes 2) (stored_direct n))"
  define bs where "bs = le_bytes 1 (inode_id n) @ nm @ le_bytes 4 (file_size n)
     @ le_bytes 1 (inode_flags n) @ dr @ le_bytes 2 (indirect_block n) @ replicate 16 0"
  have tb: "INode_to_bytes n = Inr bs"
    using INode_to_bytes_packable [OF p enc] by (simp add: bs_def nm_def dr_def)
  have nml: "length nm = 20" using el by (simp add: nm_def ljust_def)
  have drl: "length dr = 20" by (simp add: dr_def length_stored_direct)
  have len: "length bs = 64" by (simp add: bs_def nml drl)
  note lay = inode_layout [where a = "le_bytes 1 (inode_id n)" and nm = nm
      and sz = "le_bytes 4 (file_size n)" and fl = "le_bytes 1 (inode_flags n)" and dr = dr
      and ind = "le_bytes 2 (indirect_block n)" and pad = "replicate 16 0",
      folded bs_def, OF _ nml _ _ drl]
  have f_name: "utf8_decode_ignore (rstrip_nul (take 20 (drop (Suc 0) bs))) = filename n"
  proof -
    from el have "nm = enc @ replicate (20 - length enc) 0" by (simp add: nm_def ljust_def)
    with rstrip_nul_padded [OF last] have "rstrip_nul nm = enc" by simp
    with lay(1) utf8_decode_encode [OF enc] show ?thesis by simp
  qed
  have f_size: "le_uint (take 4 (drop 21 bs)) = file_size n"
    using lay(2) r by (simp add: le_uint_le_bytes4)
  have f_flags: "uint (bs ! 25) = inode_flags n"
    using lay(3) inode_flags_range [of n] by (simp add: uint_word_of_int)
  have f_direct: "map (\<lambda>i. le_sint (take 2 (drop (26 + 2 * i) bs))) [0..<DIRECT_BLOCKS] = direct_blocks n"
  proof (rule nth_equalityI)
    show "length (map (\<lambda>i. le_sint (take 2 (drop (26 + 2 * i) bs))) [0..<DIRECT_BLOCKS])
          = length (direct_blocks n)" by (simp add: dl)
    fix i assume "i < length (map (\<lambda>i. le_sint (take 2 (drop (26 + 2 * i) bs))) [0..<DIRECT_BLOCKS])"
    then have i: "i < 10" by simp
    from i dl have "direct_blocks n ! i \<in> set (take DIRECT_BLOCKS (direct_blocks n))" by simp
    with d have rng: "- 32768 \<le> direct_blocks n ! i" "direct_blocks n ! i \<le> 32767" by auto
    from i have "take 2 (drop (26 + 2 * i) bs) = take 2 (drop (2 * i) dr)"
      by (simp add: lay(4))
    also from i dl have "\<dots> = le_bytes 2 (direct_blocks n ! i)"
      unfolding dr_def by (simp add: chunk_concat_le_bytes length_stored_direct stored_direct_full)
    finally show "map (\<lambda>i. le_sint (take 2 (drop (26 + 2 * i) bs))) [0..<DIRECT_BLOCKS] ! i
                  = direct_blocks n ! i"
      using i rng by (simp add: le_sint_le_bytes2)
  qed
  have f_ind: "le_sint (take 2 (drop 46 bs)) = indirect_block n"
    using lay(5) r by (simp add: le_sint_le_bytes2)
  have "INode_from_bytes bs slot = n\<lparr>inode_id := slot, create_time := 0, modify_time := 0\<rparr>"
    using len perm ref
    by (simp add: INode_from_bytes_def Let_def f_name f_size f_flags f_direct f_ind
        inode_flags_fields take_bit_small)
  with tb len show "\<exists>bs. INode_to_bytes n = Inr bs \<and> length bs = 64 \<and>
            INode_from_bytes bs slot = n\<lparr>inode_id := slot, create_time := 0, modify_time := 0\<rparr>"
    by blast
qed

theorem inode_roundtrip_witness:
  "storable sample_inode \<and>
   (\<exists>bs. INode_to_bytes sample_inode = Inr bs \<and> length bs = 64 \<and>
         INode_from_bytes bs 5
           = sample_inode\<lparr>inode_id := 5, create_time := 0, modify_time := 0\<rparr>)"
proof -
  have "storable sample_inode"
    by (simp add: storable_def packable_def sample_inode_def new_inode_def utf8_encode_a_txt)
  with inode_roundtrip [of "[]" 5 sample_inode] show ?thesis by simp
qed


end
